theory Spec2Isabelle
  imports Complex_Main "HOL-Library.Word" "HOL-Library.Log_Nat" "HOL-Library.AList"
begin

section \<open>Binary floating-point arithmetic\<close>

text \<open>
  The matcher computes its scores in \<open>double\<close> and its ratio test in \<open>float\<close>.
  A floating-point value is modelled by the rational number it denotes, or by one
  of the three special values. Every arithmetic operation computes the exact
  rational result and rounds it to the nearest representable number, ties to the
  even significand, which is the default rounding of IEEE 754 (binary32 for
  \<open>float\<close>, binary64 for \<open>double\<close>). Signed zeros are not distinguished.
\<close>

datatype fp = Finite rat | PosInf | NegInf | NaN

text \<open>\<open>ilog2 x\<close> is the exponent \<open>e\<close> of the binade of a positive \<open>x\<close>:
  \<open>2\<^sup>e \<le> x < 2\<^sup>e\<^sup>+\<^sup>1\<close>.\<close>

definition ilog2 :: "rat \<Rightarrow> int" where
  "ilog2 x = (if 1 \<le> x then bitlen \<lfloor>x\<rfloor> - 1 else - bitlen (\<lceil>1 / x\<rceil> - 1))"

text \<open>Rounding to the nearest integer, a tie going to the even neighbour.\<close>

definition rne :: "rat \<Rightarrow> int" where
  "rne x = (let f = \<lfloor>x\<rfloor>; r = x - of_int f in
     if r < 1 / 2 then f else if 1 / 2 < r then f + 1 else if even f then f else f + 1)"

text \<open>Rounding to a binary format with \<open>p\<close> significand bits and least normal
  exponent \<open>emin\<close>: the spacing of the representable numbers around \<open>x\<close> is
  \<open>2\<^sup>e\<^sup>-\<^sup>p\<^sup>+\<^sup>1\<close> with \<open>e\<close> the binade of \<open>x\<close>, at least \<open>emin\<close> (below it the
  numbers are subnormal and equally spaced).\<close>

definition round_bin :: "nat \<Rightarrow> int \<Rightarrow> rat \<Rightarrow> rat" where
  "round_bin p emin x = (if x = 0 then 0 else
     (let q = 2 powi (max (ilog2 \<bar>x\<bar>) emin - int p + 1) in of_int (rne (x / q)) * q))"

text \<open>A rounded result whose magnitude leaves the format's range is an infinity.\<close>

definition overflow :: "rat \<Rightarrow> rat \<Rightarrow> fp" where
  "overflow limit r = (if limit \<le> \<bar>r\<bar> then (if 0 < r then PosInf else NegInf) else Finite r)"

definition f32_round :: "rat \<Rightarrow> fp" where
  "f32_round x = overflow (2 ^ 128) (round_bin 24 (- 126) x)"

definition f64_round :: "rat \<Rightarrow> fp" where
  "f64_round x = overflow (2 ^ 1024) (round_bin 53 (- 1022) x)"

fun fp_neg :: "fp \<Rightarrow> fp" where
  "fp_neg (Finite a) = Finite (- a)"
| "fp_neg PosInf = NegInf"
| "fp_neg NegInf = PosInf"
| "fp_neg NaN = NaN"

fun fp_add :: "(rat \<Rightarrow> fp) \<Rightarrow> fp \<Rightarrow> fp \<Rightarrow> fp" where
  "fp_add rnd (Finite a) (Finite b) = rnd (a + b)"
| "fp_add rnd NaN y = NaN"
| "fp_add rnd x NaN = NaN"
| "fp_add rnd PosInf NegInf = NaN"
| "fp_add rnd NegInf PosInf = NaN"
| "fp_add rnd PosInf y = PosInf"
| "fp_add rnd NegInf y = NegInf"
| "fp_add rnd (Finite a) y = y"

fun fp_div :: "(rat \<Rightarrow> fp) \<Rightarrow> fp \<Rightarrow> fp \<Rightarrow> fp" where
  "fp_div rnd (Finite a) (Finite b) =
     (if b = 0 then (if a = 0 then NaN else if 0 < a then PosInf else NegInf)
      else rnd (a / b))"
| "fp_div rnd NaN y = NaN"
| "fp_div rnd x NaN = NaN"
| "fp_div rnd (Finite a) y = Finite 0"
| "fp_div rnd x (Finite b) = (if 0 \<le> b then x else fp_neg x)"
| "fp_div rnd x y = NaN"

text \<open>The comparisons: every comparison with a NaN is false.\<close>

fun fp_less :: "fp \<Rightarrow> fp \<Rightarrow> bool" where
  "fp_less (Finite a) (Finite b) = (a < b)"
| "fp_less NaN y = False"
| "fp_less x NaN = False"
| "fp_less x NegInf = False"
| "fp_less PosInf y = False"
| "fp_less x y = True"

fun fp_le :: "fp \<Rightarrow> fp \<Rightarrow> bool" where
  "fp_le (Finite a) (Finite b) = (a \<le> b)"
| "fp_le NaN y = False"
| "fp_le x NaN = False"
| "fp_le NegInf y = True"
| "fp_le x PosInf = True"
| "fp_le x y = False"

definition f64_add :: "fp \<Rightarrow> fp \<Rightarrow> fp" where
  "f64_add x y = fp_add f64_round x y"

definition f64_sub :: "fp \<Rightarrow> fp \<Rightarrow> fp" where
  "f64_sub x y = fp_add f64_round x (fp_neg y)"

definition f64_div :: "fp \<Rightarrow> fp \<Rightarrow> fp" where
  "f64_div x y = fp_div f64_round x y"

definition f32_div :: "fp \<Rightarrow> fp \<Rightarrow> fp" where
  "f32_div x y = fp_div f32_round x y"

text \<open>Conversions from the integer types.\<close>

definition f64_of_int :: "int \<Rightarrow> fp" where
  "f64_of_int n = f64_round (of_int n)"

definition f32_of_nat :: "nat \<Rightarrow> fp" where
  "f32_of_nat n = f32_round (of_nat n)"


section \<open>Failures\<close>

text \<open>
  A failed glog \<open>CHECK\<close> aborts the process. Converting a \<open>double\<close> that is not
  finite, or whose truncation does not fit, to \<open>int\<close> has undefined behaviour,
  and so has reading a vector out of its range.
\<close>

datatype failure = CheckFailed | UndefinedBehaviour

text \<open>\<open>static_cast<int>\<close> of a \<open>double\<close>: truncation towards zero, defined only
  when the result fits a 32-bit \<open>int\<close>.\<close>

definition trunc :: "rat \<Rightarrow> int" where
  "trunc r = (if 0 \<le> r then \<lfloor>r\<rfloor> else \<lceil>r\<rceil>)"

definition to_int :: "fp \<Rightarrow> failure + int" where
  "to_int x = (case x of
     Finite r \<Rightarrow>
       if - (2 ^ 31) \<le> trunc r \<and> trunc r < 2 ^ 31 then Inr (trunc r)
       else Inl UndefinedBehaviour
   | PosInf \<Rightarrow> Inl UndefinedBehaviour
   | NegInf \<Rightarrow> Inl UndefinedBehaviour
   | NaN \<Rightarrow> Inl UndefinedBehaviour)"


section \<open>The stereo matcher\<close>

subsection \<open>Configuration and construction\<close>

text \<open>
  The camera rig gives the camera of every camera id, and a camera has an image
  height (\<open>uint32_t\<close>). The stereo pair names its two cameras. The matcher also
  reads the row lookup table \<open>corner_row_LUT_\<close>, which is built together with the
  keypoints of frame 1 sorted by their vertical coordinate; an iterator into that
  sorted vector is modelled by its position. A member name that ends in an
  underscore is written with a prime instead. The two output pointers of the
  window query are results of the model; their null checks have no counterpart.
\<close>

record Camera =
  imageHeight :: "32 word"

type_synonym NCamera = "nat \<Rightarrow> Camera"

record StereoPairIdentifier =
  first_camera_id :: nat
  second_camera_id :: nat

record StereoMatcher =
  stereo_pair' :: StereoPairIdentifier
  camera_rig' :: NCamera
  kImageHeight :: "32 word"
  corner_row_LUT' :: "int list"

text \<open>
  The constructor's member initialisers are \<open>stereo_pair_(stereo_pair)\<close>,
  \<open>camera_rig_(camera_rig_)\<close> and
  \<open>kImageHeight(camera_rig_->getCameraShared(stereo_pair.first_camera_id)->imageHeight())\<close>.
  The second one names the member itself, not the parameter \<open>camera_rig\<close>: the
  member is copied from its own storage, which nothing has initialised yet. That
  storage's content is the extra argument \<open>indeterminate\<close> of the model. The lookup
  table is empty until a call of \<open>match\<close> builds it.
\<close>

definition StereoMatcher_ctor ::
    "StereoPairIdentifier \<Rightarrow> NCamera \<Rightarrow> NCamera \<Rightarrow> StereoMatcher" where
  "StereoMatcher_ctor stereo_pair camera_rig indeterminate =
     \<lparr>stereo_pair' = stereo_pair,
      camera_rig' = indeterminate,
      kImageHeight = imageHeight (indeterminate (first_camera_id stereo_pair)),
      corner_row_LUT' = []\<rparr>"

subsection \<open>The window query\<close>

definition clamp :: "int \<Rightarrow> int \<Rightarrow> int \<Rightarrow> int" where
  "clamp lower upper in' = min (max in' lower) upper"

text \<open>
  The two edges of the window, before clamping:
  \<open>static_cast<int>(predicted_keypoint_position(1) + 0.5 - window_half_side_length_px)\<close>
  and the same with \<open>+ window_half_side_length_px\<close>. The sum is evaluated from the
  left in \<open>double\<close>, the \<open>int\<close> operand being converted first.
\<close>

definition window_top_row :: "fp \<Rightarrow> int \<Rightarrow> failure + int" where
  "window_top_row y window_half_side_length_px =
     to_int (f64_sub (f64_add y (Finite (1 / 2))) (f64_of_int window_half_side_length_px))"

definition window_bottom_row :: "fp \<Rightarrow> int \<Rightarrow> failure + int" where
  "window_bottom_row y window_half_side_length_px =
     to_int (f64_add (f64_add y (Finite (1 / 2))) (f64_of_int window_half_side_length_px))"

text \<open>
  The two row indices. \<open>kImageHeight - 1\<close> is computed in \<open>uint32_t\<close> and then
  converted to the \<open>int\<close> parameter \<open>upper\<close> of \<open>clamp\<close> (two's complement).
\<close>

definition LUT_index_top :: "32 word \<Rightarrow> fp \<Rightarrow> int \<Rightarrow> failure + int" where
  "LUT_index_top height y window_half_side_length_px =
     (case window_top_row y window_half_side_length_px of
        Inl e \<Rightarrow> Inl e
      | Inr t \<Rightarrow> Inr (clamp 0 (sint (height - 1)) t))"

definition LUT_index_bottom :: "32 word \<Rightarrow> fp \<Rightarrow> int \<Rightarrow> failure + int" where
  "LUT_index_bottom height y window_half_side_length_px =
     (case window_bottom_row y window_half_side_length_px of
        Inl e \<Rightarrow> Inl e
      | Inr b \<Rightarrow> Inr (clamp 0 (sint (height - 1)) b))"

text \<open>Reading the lookup table at an \<open>int\<close> index.\<close>

definition lut_at :: "int list \<Rightarrow> int \<Rightarrow> failure + int" where
  "lut_at lut i = (if 0 \<le> i \<and> nat i < length lut then Inr (lut ! nat i) else Inl UndefinedBehaviour)"

text \<open>The five checks that close the query; \<open>CHECK_LT\<close> against \<open>kImageHeight\<close>
  compares in \<open>uint32_t\<close>.\<close>

definition bounds_checks :: "32 word \<Rightarrow> int \<Rightarrow> int \<Rightarrow> bool" where
  "bounds_checks height row_top row_bottom \<longleftrightarrow>
     row_top \<le> row_bottom \<and> 0 \<le> row_bottom \<and> 0 \<le> row_top \<and>
     (word_of_int row_top :: 32 word) < height \<and> (word_of_int row_bottom :: 32 word) < height"

record window =
  LUT_index_top_of :: int
  LUT_index_bottom_of :: int
  it_keypoints_begin :: int
  it_keypoints_end :: int

definition getKeypointIteratorsInWindow :: "StereoMatcher \<Rightarrow> fp \<Rightarrow> int \<Rightarrow> failure + window" where
  "getKeypointIteratorsInWindow m y window_half_side_length_px =
     (if \<not> 0 < window_half_side_length_px then Inl CheckFailed
      else case LUT_index_top (kImageHeight m) y window_half_side_length_px of
        Inl e \<Rightarrow> Inl e
      | Inr row_top \<Rightarrow>
      (case LUT_index_bottom (kImageHeight m) y window_half_side_length_px of
        Inl e \<Rightarrow> Inl e
      | Inr row_bottom \<Rightarrow>
      (case lut_at (corner_row_LUT' m) row_top of
        Inl e \<Rightarrow> Inl e
      | Inr it_begin \<Rightarrow>
      (case lut_at (corner_row_LUT' m) row_bottom of
        Inl e \<Rightarrow> Inl e
      | Inr it_end \<Rightarrow>
        if bounds_checks (kImageHeight m) row_top row_bottom
        then Inr \<lparr>LUT_index_top_of = row_top, LUT_index_bottom_of = row_bottom,
                  it_keypoints_begin = it_begin, it_keypoints_end = it_end\<rparr>
        else Inl CheckFailed))))"

subsection \<open>Scoring\<close>

text \<open>\<open>static_cast<double>(num_matching_bits) / descriptor_size_bits\<close>. The first
  parameter is a 32-bit \<open>int\<close>, read in two's complement, the second an
  \<open>unsigned int\<close>.\<close>

definition computeMatchingScore :: "32 word \<Rightarrow> 32 word \<Rightarrow> fp" where
  "computeMatchingScore num_matching_bits descriptor_size_bits =
     f64_div (f64_of_int (sint num_matching_bits)) (f64_of_int (uint descriptor_size_bits))"

text \<open>\<open>kLoweRatio = 0.8f\<close>: the \<open>float\<close> nearest to 0.8.\<close>

definition kLoweRatio :: fp where
  "kLoweRatio = f32_round (4 / 5)"

definition ratioTest :: "32 word \<Rightarrow> 32 word \<Rightarrow> 32 word \<Rightarrow> failure + bool" where
  "ratioTest descriptor_size_bits distance_closest distance_second_closest =
     (if \<not> distance_closest \<le> distance_second_closest then Inl CheckFailed
      else if distance_second_closest > descriptor_size_bits then Inr True
      else if distance_second_closest = 0 then Inr True
      else Inr (fp_less
             (f32_div (f32_of_nat (unat distance_closest))
                      (f32_of_nat (unat distance_second_closest)))
             kLoweRatio))"

subsection \<open>Match data\<close>

record MatchData =
  keypoint_match_candidates_frame1 :: "int list"
  match_candidate_matching_scores :: "fp list"

definition addCandidate :: "MatchData \<Rightarrow> int \<Rightarrow> fp \<Rightarrow> failure + MatchData" where
  "addCandidate d keypoint_iterator_frame1 matching_score =
     (if \<not> fp_less (Finite 0) matching_score then Inl CheckFailed
      else if \<not> fp_le matching_score (Finite 1) then Inl CheckFailed
      else Inr (d\<lparr>keypoint_match_candidates_frame1 :=
                     keypoint_match_candidates_frame1 d @ [keypoint_iterator_frame1],
                   match_candidate_matching_scores :=
                     match_candidate_matching_scores d @ [matching_score]\<rparr>))"

text \<open>\<open>MatchData() = default\<close>: both vectors empty.\<close>

definition MatchData_default :: MatchData where
  "MatchData_default =
     \<lparr>keypoint_match_candidates_frame1 = [], match_candidate_matching_scores = []\<rparr>"

text \<open>Recording a sequence of candidates, one call of \<open>addCandidate\<close> each; the
  first failed check ends it.\<close>

fun addCandidates :: "MatchData \<Rightarrow> (int \<times> fp) list \<Rightarrow> failure + MatchData" where
  "addCandidates d [] = Inr d"
| "addCandidates d ((it, s) # cs) =
     (case addCandidate d it s of Inl e \<Rightarrow> Inl e | Inr d' \<Rightarrow> addCandidates d' cs)"

text \<open>A score in the interval \<open>(0, 1]\<close>.\<close>

definition score_in_range :: "fp \<Rightarrow> bool" where
  "score_in_range s = (case s of Finite r \<Rightarrow> 0 < r \<and> r \<le> 1 | PosInf \<Rightarrow> False
     | NegInf \<Rightarrow> False | NaN \<Rightarrow> False)"

subsection \<open>The ratio test as the specification states it\<close>

text \<open>The specification's law for the ratio test, over the exact quotient of the
  two distances.\<close>

definition ratioTest_spec :: "32 word \<Rightarrow> 32 word \<Rightarrow> 32 word \<Rightarrow> bool" where
  "ratioTest_spec descriptor_size_bits d1 d2 =
     (if d2 > descriptor_size_bits then True
      else if d2 = 0 then True
      else (of_nat (unat d1) / of_nat (unat d2) :: rat) < 4 / 5)"

subsection \<open>The matching score as the specification states it\<close>

text \<open>The specification's formula \<open>score = 1 - hamming_distance / descriptor_size_bits\<close>,
  over the exact numbers.\<close>

definition score_spec :: "nat \<Rightarrow> nat \<Rightarrow> rat" where
  "score_spec descriptor_size_bits hamming_distance =
     1 - of_nat hamming_distance / of_nat descriptor_size_bits"

subsection \<open>The window rows as the specification states them\<close>

text \<open>The specification's formulas \<open>clamp(0, image_height - 1, predicted_y - half_height)\<close>
  and \<open>clamp(0, image_height - 1, predicted_y + half_height)\<close>, taken over the
  exact numbers.\<close>

definition clamp_spec :: "rat \<Rightarrow> rat \<Rightarrow> rat \<Rightarrow> rat" where
  "clamp_spec lower upper x = min (max x lower) upper"

definition top_spec :: "32 word \<Rightarrow> rat \<Rightarrow> int \<Rightarrow> rat" where
  "top_spec image_height predicted_y half_height =
     clamp_spec 0 (of_int (uint image_height) - 1) (predicted_y - of_int half_height)"

definition bottom_spec :: "32 word \<Rightarrow> rat \<Rightarrow> int \<Rightarrow> rat" where
  "bottom_spec image_height predicted_y half_height =
     clamp_spec 0 (of_int (uint image_height) - 1) (predicted_y + of_int half_height)"


section \<open>The matching pass and the resolver\<close>

text \<open>
  The header declares \<open>match\<close>, \<open>matchKeypoint\<close> and \<open>matchInferiorMatches\<close> and the
  members they work on; their bodies are not among the sources, so this section
  follows the specification. Frame A of the specification is \<open>frame0\<close> of the
  header, frame B is \<open>frame1\<close>. A score is the rational number its \<open>double\<close>
  denotes.
\<close>

text \<open>\<open>kMaxNumInferiorIterations = 3u\<close>, from the header.\<close>

definition kMaxNumInferiorIterations :: nat where
  "kMaxNumInferiorIterations = 3"

text \<open>\<open>kMatchingThresholdBitsRatioStrict = 0.85f\<close>, from the header: the \<open>float\<close>
  nearest to 0.85.\<close>

definition kMatchingThresholdBitsRatioStrict :: rat where
  "kMatchingThresholdBitsRatioStrict = round_bin 24 (- 126) (17 / 20)"

text \<open>Modelled from the spec: the outcome of candidate generation and scoring for
  one keypoint of frame A (the body of \<open>matchKeypoint\<close> that computes it is missing).
  \<open>tried\<close> is its MatchData, "the ordered list of all frame-B candidates tried and
  their scores during the first pass", each candidate given by its frame-B index;
  \<open>eligible\<close> lists the "candidates passing both tests", the threshold test and the
  ratio test.\<close>

record attempt =
  tried :: "(nat \<times> rat) list"
  eligible :: "(nat \<times> rat) list"

text \<open>Modelled from the spec: the per-call state of \<open>match\<close> (its body is missing).
  The assignment table is the "mapping from frame-B index to the currently winning
  frame-A index", kept with the winner's score, as an association list; the
  inferior set is the vector of "frame-A indices whose assignment was evicted" or
  who lost the contest for their best target.\<close>

record match_state =
  frame1_idx_to_matches_iterator_map :: "(nat \<times> nat \<times> rat) list"
  inferior_match_keypoint_idx_frame0 :: "nat list"

text \<open>Modelled from the spec: the output element "Match {idx_frameA, idx_frameB,
  score}" (the header \<open>match.h\<close> that declares it is missing).\<close>

record Match =
  idx_frame0 :: nat
  idx_frame1 :: nat
  score :: rat

text \<open>Modelled from the spec: "pick the highest-scoring" candidate of a list (part
  of the missing bodies); among equal scores the first one.\<close>

fun best_candidate :: "(nat \<times> rat) list \<Rightarrow> (nat \<times> rat) option" where
  "best_candidate [] = None"
| "best_candidate ((j, s) # cs) =
     (case best_candidate cs of
        None \<Rightarrow> Some (j, s)
      | Some (j', s') \<Rightarrow> if s' > s then Some (j', s') else Some (j, s))"

text \<open>Modelled from the spec: "install the new assignment and, if an incumbent
  existed, push the incumbent's frame-A index into the inferior set" (part of the
  missing bodies of \<open>matchKeypoint\<close> and \<open>matchInferiorMatches\<close>).\<close>

definition install :: "nat \<Rightarrow> nat \<Rightarrow> rat \<Rightarrow> match_state \<Rightarrow> match_state" where
  "install a j s st =
     (case map_of (frame1_idx_to_matches_iterator_map st) j of
        None \<Rightarrow>
          st\<lparr>frame1_idx_to_matches_iterator_map :=
               AList.update j (a, s) (frame1_idx_to_matches_iterator_map st)\<rparr>
      | Some (a', s') \<Rightarrow>
          st\<lparr>frame1_idx_to_matches_iterator_map :=
               AList.update j (a, s) (frame1_idx_to_matches_iterator_map st),
             inferior_match_keypoint_idx_frame0 :=
               inferior_match_keypoint_idx_frame0 st @ [a']\<rparr>)"

text \<open>Modelled from the spec: the condition of the eviction rule (part of the
  missing bodies), "frame-B index j currently has no assignment or its current
  score is lower than the new candidate's score"; in the resolver's words the
  candidate is "unclaimed or weaker-held".\<close>

definition weaker_held :: "match_state \<Rightarrow> nat \<Rightarrow> rat \<Rightarrow> bool" where
  "weaker_held st j s =
     (case map_of (frame1_idx_to_matches_iterator_map st) j of
        None \<Rightarrow> True
      | Some (a', s') \<Rightarrow> s' < s)"

text \<open>Modelled from the spec: the assignment step of \<open>matchKeypoint\<close> (its body is
  missing), section 4.4. A keypoint with no eligible candidate changes nothing; with
  one, its best candidate is installed if the target is free or held with a lower
  score, and otherwise "the new keypoint itself is pushed into the inferior set".\<close>

definition matchKeypoint :: "attempt list \<Rightarrow> nat \<Rightarrow> match_state \<Rightarrow> match_state" where
  "matchKeypoint attempts idx_k st =
     (case best_candidate (eligible (attempts ! idx_k)) of
        None \<Rightarrow> st
      | Some (j, s) \<Rightarrow>
          if weaker_held st j s then install idx_k j s st
          else st\<lparr>inferior_match_keypoint_idx_frame0 :=
                    inferior_match_keypoint_idx_frame0 st @ [idx_k]\<rparr>)"

text \<open>Modelled from the spec: the stored MatchData of a frame-A keypoint, as the
  resolver consults it (the member \<open>idx_frame0_to_attempted_match_data_map_\<close> is
  declared, the code filling it is missing).\<close>

definition attempted :: "attempt list \<Rightarrow> nat \<Rightarrow> (nat \<times> rat) list" where
  "attempted attempts a = (if a < length attempts then tried (attempts ! a) else [])"

text \<open>Modelled from the spec: the resolver's step for one inferior keypoint (part
  of the missing body of \<open>matchInferiorMatches\<close>), section 4.5. Among the candidates
  already queried it looks for "an unclaimed or weaker-held frame-B candidate", with
  the strict threshold and no ratio test, and takes the best one. A re-match counts
  as a new assignment and follows the eviction rule; an evicted incumbent "is then
  added to the inferior set for the next round". A keypoint that finds nothing stays
  in the inferior set.\<close>

definition rematch :: "attempt list \<Rightarrow> nat \<Rightarrow> nat \<times> match_state \<Rightarrow> nat \<times> match_state" where
  "rematch attempts a acc =
     (case acc of (n, st) \<Rightarrow>
        (case best_candidate
                (filter (\<lambda>(j, s). kMatchingThresholdBitsRatioStrict \<le> s \<and> weaker_held st j s)
                   (attempted attempts a)) of
           None \<Rightarrow>
             (n, st\<lparr>inferior_match_keypoint_idx_frame0 :=
                      inferior_match_keypoint_idx_frame0 st @ [a]\<rparr>)
         | Some (j, s) \<Rightarrow> (Suc n, install a j s st)))"

text \<open>Modelled from the spec: one round of \<open>matchInferiorMatches\<close> (its body is
  missing): "each round iterates over the current inferior set". The result is the
  number of new assignments of the round, with the state; the header's \<open>bool\<close>
  result, "true if matches are still found", is that this number is not zero.\<close>

definition matchInferiorMatches :: "attempt list \<Rightarrow> match_state \<Rightarrow> nat \<times> match_state" where
  "matchInferiorMatches attempts st =
     fold (rematch attempts) (inferior_match_keypoint_idx_frame0 st)
       (0, st\<lparr>inferior_match_keypoint_idx_frame0 := []\<rparr>)"

text \<open>Modelled from the spec: the resolver loop of \<open>match\<close> (its body is missing):
  it "runs up to a fixed number of rounds", and "a round that produces zero new
  assignments terminates the resolver early, even if rounds remain". The first
  argument is the number of rounds left; the result lists the number of new
  assignments of every round that was executed.\<close>

fun resolve :: "nat \<Rightarrow> attempt list \<Rightarrow> match_state \<Rightarrow> nat list \<times> match_state" where
  "resolve 0 attempts st = ([], st)"
| "resolve (Suc k) attempts st =
     (case matchInferiorMatches attempts st of (n, st') \<Rightarrow>
        if n = 0 then ([n], st')
        else (case resolve k attempts st' of (ns, st'') \<Rightarrow> (n # ns, st'')))"

text \<open>Modelled from the spec: the state at the entry of \<open>match\<close> (its body is
  missing): "all per-call mutable state is freshly initialized at the start of
  each match invocation".\<close>

definition initial_state :: match_state where
  "initial_state =
     \<lparr>frame1_idx_to_matches_iterator_map = [], inferior_match_keypoint_idx_frame0 = []\<rparr>"

text \<open>Modelled from the spec: the first pass of \<open>match\<close> (its body is missing), over
  the frame-A keypoints in ascending index order.\<close>

definition first_pass :: "attempt list \<Rightarrow> match_state" where
  "first_pass attempts = fold (matchKeypoint attempts) [0 ..< length attempts] initial_state"

text \<open>Modelled from the spec: the output of \<open>match\<close> (its body is missing), the
  assignments "ordered by ascending frame-A index".\<close>

definition matches_of :: "match_state \<Rightarrow> Match list" where
  "matches_of st =
     sort_key idx_frame0
       (map (\<lambda>(j, a, s). \<lparr>idx_frame0 = a, idx_frame1 = j, score = s\<rparr>)
          (frame1_idx_to_matches_iterator_map st))"

text \<open>Modelled from the spec: \<open>match\<close> (its body is missing), section 4.6: the first
  pass, then the resolver, then the output.\<close>

definition match :: "attempt list \<Rightarrow> Match list" where
  "match attempts =
     matches_of (snd (resolve kMaxNumInferiorIterations attempts (first_pass attempts)))"

text \<open>Modelled from the spec: a frame-B candidate that the first pass queried for a
  frame-A keypoint, with the outcome of its scoring (the body of \<open>matchKeypoint\<close>
  that queries and scores it is missing): its iterator into the sorted keypoints of
  frame B, its frame-B index, the score computed for it, and whether it passed
  "both tests", the threshold test and the ratio test.\<close>

record queried_candidate =
  cand_iterator :: int
  cand_idx_frame1 :: nat
  cand_score :: fp
  cand_passed :: bool

text \<open>The rational number that a recorded score denotes. The scores that
  \<open>addCandidate\<close> records are finite; any other value is read as 0, which is outside
  the interval \<open>(0, 1]\<close>.\<close>

definition score_value :: "fp \<Rightarrow> rat" where
  "score_value s = (case s of Finite r \<Rightarrow> r | PosInf \<Rightarrow> 0 | NegInf \<Rightarrow> 0 | NaN \<Rightarrow> 0)"

text \<open>Modelled from the spec: the first-pass data of one frame-A keypoint (the body
  of \<open>matchKeypoint\<close> that collects it is missing). Every queried candidate is
  recorded into the keypoint's \<open>MatchData\<close> by \<open>addCandidate\<close>, in order, "the
  ordered list of all frame-B candidates tried and their scores"; a failed check
  ends the call. The candidates tried are read back from the \<open>MatchData\<close>, and
  "only candidates passing both tests are eligible to be assigned".\<close>

definition record_attempt :: "queried_candidate list \<Rightarrow> failure + attempt" where
  "record_attempt qs =
     (case addCandidates MatchData_default (map (\<lambda>q. (cand_iterator q, cand_score q)) qs) of
        Inl e \<Rightarrow> Inl e
      | Inr d \<Rightarrow>
          let recorded = zip qs (map score_value (match_candidate_matching_scores d))
          in Inr \<lparr>tried = map (\<lambda>(q, s). (cand_idx_frame1 q, s)) recorded,
                  eligible = map (\<lambda>(q, s). (cand_idx_frame1 q, s))
                               (filter (\<lambda>(q, s). cand_passed q) recorded)\<rparr>)"

text \<open>Modelled from the spec: the first-pass data of all frame-A keypoints, in
  ascending index order (part of the missing body of \<open>match\<close>).\<close>

fun record_attempts :: "queried_candidate list list \<Rightarrow> failure + attempt list" where
  "record_attempts [] = Inr []"
| "record_attempts (qs # qss) =
     (case record_attempt qs of
        Inl e \<Rightarrow> Inl e
      | Inr a \<Rightarrow> (case record_attempts qss of Inl e \<Rightarrow> Inl e | Inr as \<Rightarrow> Inr (a # as)))"

text \<open>Modelled from the spec: \<open>match\<close> (its body is missing) on the candidates
  queried for each frame-A keypoint: they are recorded by \<open>addCandidate\<close>, and the
  matches are assigned from the recorded data.\<close>

definition match_recorded :: "queried_candidate list list \<Rightarrow> failure + Match list" where
  "match_recorded qss =
     (case record_attempts qss of Inl e \<Rightarrow> Inl e | Inr attempts \<Rightarrow> Inr (match attempts))"

text \<open>The frame-A index of an entry of the assignment table, and the invariant of
  the state while a list of frame-A keypoints is still pending: no frame-B index
  and no frame-A index is assigned twice, and no keypoint of the inferior set or
  of the pending list is assigned or listed twice.\<close>

definition winner :: "nat \<times> nat \<times> rat \<Rightarrow> nat" where
  "winner e = fst (snd e)"

definition A_indices :: "match_state \<Rightarrow> nat list" where
  "A_indices st = map winner (frame1_idx_to_matches_iterator_map st)"

definition state_ok :: "match_state \<Rightarrow> nat list \<Rightarrow> bool" where
  "state_ok st pending \<longleftrightarrow>
     distinct (map fst (frame1_idx_to_matches_iterator_map st)) \<and>
     distinct (A_indices st) \<and>
     distinct (inferior_match_keypoint_idx_frame0 st @ pending) \<and>
     set (inferior_match_keypoint_idx_frame0 st @ pending) \<inter> set (A_indices st) = {}"

text \<open>The scores of all candidates of a call, and the invariant that every score in
  the assignment table is one of them.\<close>

definition candidate_scores :: "attempt list \<Rightarrow> rat set" where
  "candidate_scores attempts =
     (\<Union>a \<in> set attempts. snd ` (set (tried a) \<union> set (eligible a)))"

definition scores_known :: "attempt list \<Rightarrow> match_state \<Rightarrow> bool" where
  "scores_known attempts st \<longleftrightarrow>
     (snd \<circ> snd) ` set (frame1_idx_to_matches_iterator_map st) \<subseteq> candidate_scores attempts"


section \<open>Properties of the rounding\<close>

lemma ilog2_bounds:
  assumes "0 < x"
  shows "2 powi (ilog2 x) \<le> x \<and> x < 2 powi (ilog2 x + 1)"
proof (cases "1 \<le> x")
  case True
  define n where "n = \<lfloor>x\<rfloor>"
  have n1: "1 \<le> n" using True by (simp add: n_def le_floor_iff)
  then have n0: "0 < n" by simp
  from bitlen_bounds[OF n0] have lo: "2 ^ nat (bitlen n - 1) \<le> n" and hi: "n < 2 ^ nat (bitlen n)"
    by auto
  have k1: "1 \<le> bitlen n" using n0 bitlen_eq_zero_iff[of n] bitlen_nonneg[of n] by linarith
  have e: "ilog2 x = bitlen n - 1" using True by (simp add: ilog2_def n_def)
  have "(2::rat) powi (bitlen n - 1) = 2 ^ nat (bitlen n - 1)"
    using k1 by (simp add: power_int_def)
  also have "\<dots> = of_int (2 ^ nat (bitlen n - 1))" by simp
  also have "\<dots> \<le> of_int n" using lo by (simp only: of_int_le_iff)
  also have "\<dots> \<le> x" by (simp add: n_def)
  finally have A: "2 powi (ilog2 x) \<le> x" by (simp add: e)
  have "x < of_int (n + 1)" unfolding n_def by linarith
  also have "\<dots> \<le> of_int (2 ^ nat (bitlen n))"
  proof -
    have "n + 1 \<le> 2 ^ nat (bitlen n)" using hi by simp
    then show ?thesis by (simp only: of_int_le_iff)
  qed
  also have "\<dots> = 2 powi (bitlen n)" using k1 by (simp add: power_int_def)
  finally have B: "x < 2 powi (ilog2 x + 1)" by (simp add: e)
  from A B show ?thesis ..
next
  case False
  then have x1: "x < 1" by simp
  define y where "y = 1 / x"
  have y1: "1 < y" using assms x1 by (simp add: y_def)
  define m where "m = \<lceil>y\<rceil> - 1"
  have "1 < \<lceil>y\<rceil>" using y1 by (simp add: less_ceiling_iff)
  then have m0: "0 < m" by (simp add: m_def)
  from bitlen_bounds[OF m0] have lo: "2 ^ nat (bitlen m - 1) \<le> m" and hi: "m < 2 ^ nat (bitlen m)"
    by auto
  have k1: "1 \<le> bitlen m" using m0 bitlen_eq_zero_iff[of m] bitlen_nonneg[of m] by linarith
  have e: "ilog2 x = - bitlen m" using False by (simp add: ilog2_def m_def y_def)
  have "y \<le> of_int \<lceil>y\<rceil>" by simp
  also have "\<dots> \<le> of_int (2 ^ nat (bitlen m))"
  proof -
    have "\<lceil>y\<rceil> \<le> 2 ^ nat (bitlen m)" using hi by (simp add: m_def)
    then show ?thesis by (simp only: of_int_le_iff)
  qed
  finally have yhi: "y \<le> 2 ^ nat (bitlen m)" by simp
  have "of_int (2 ^ nat (bitlen m - 1)) \<le> (of_int m :: rat)" using lo by (simp only: of_int_le_iff)
  also have "\<dots> < y" by (simp add: m_def) linarith
  finally have ylo: "2 ^ nat (bitlen m - 1) < y" by simp
  have xy: "x = 1 / y" using assms by (simp add: y_def)
  have "(2::rat) powi (- bitlen m) = 1 / 2 ^ nat (bitlen m)"
    using k1 by (simp add: power_int_def field_simps)
  also have "\<dots> \<le> 1 / y" using yhi y1 by (simp add: frac_le)
  finally have "2 powi (- bitlen m) \<le> x" by (simp add: xy)
  then have A: "2 powi (ilog2 x) \<le> x" by (simp only: e)
  have "1 / y < 1 / 2 ^ nat (bitlen m - 1)" using ylo by (simp add: frac_less2)
  also have "\<dots> = (2::rat) powi (- bitlen m + 1)"
    using k1 by (simp add: power_int_def field_simps nat_diff_distrib)
  finally have "x < 2 powi (- bitlen m + 1)" by (simp add: xy)
  then have B: "x < 2 powi (ilog2 x + 1)" by (simp only: e)
  from A B show ?thesis ..
qed

lemma rne_lower: "of_int n \<le> x \<Longrightarrow> n \<le> rne x"
proof -
  assume "of_int n \<le> x"
  then have "n \<le> \<lfloor>x\<rfloor>" by (simp add: le_floor_iff)
  moreover have "\<lfloor>x\<rfloor> \<le> rne x" by (simp add: rne_def Let_def)
  ultimately show ?thesis by linarith
qed

lemma rne_of_int [simp]: "rne (of_int n) = n"
  by (simp add: rne_def Let_def)

lemma rne_upper: "x \<le> of_int n \<Longrightarrow> rne x \<le> n"
proof (cases "x = of_int n")
  case True
  then show ?thesis by simp
next
  case False
  assume "x \<le> of_int n"
  with False have "x < of_int n" by simp
  then have "\<lfloor>x\<rfloor> < n" by (simp add: floor_less_iff)
  moreover have "rne x \<le> \<lfloor>x\<rfloor> + 1" by (simp add: rne_def Let_def)
  ultimately show ?thesis by linarith
qed

lemma rne_mono: "x \<le> y \<Longrightarrow> rne x \<le> rne y"
proof -
  assume xy: "x \<le> y"
  then have "\<lfloor>x\<rfloor> \<le> \<lfloor>y\<rfloor>" by (rule floor_mono)
  then consider "\<lfloor>x\<rfloor> = \<lfloor>y\<rfloor>" | "\<lfloor>x\<rfloor> + 1 \<le> \<lfloor>y\<rfloor>" by linarith
  then show ?thesis
  proof cases
    case 1
    with xy show ?thesis by (auto simp add: rne_def Let_def)
  next
    case 2
    have "rne x \<le> \<lfloor>x\<rfloor> + 1" by (simp add: rne_def Let_def)
    moreover have "\<lfloor>y\<rfloor> \<le> rne y" by (simp add: rne_def Let_def)
    ultimately show ?thesis using 2 by linarith
  qed
qed

lemma rne_minus: "rne (- x) = - rne x"
proof (cases "x = of_int \<lfloor>x\<rfloor>")
  case True
  then obtain n where "x = of_int n" ..
  then have "- x = of_int (- n)" by simp
  then show ?thesis using \<open>x = of_int n\<close> by (simp only: rne_of_int)
next
  case False
  then have c: "\<lceil>x\<rceil> = \<lfloor>x\<rfloor> + 1" by (metis ceiling_altdef)
  have f: "\<lfloor>- x\<rfloor> = - \<lfloor>x\<rfloor> - 1" using c by (simp add: floor_minus)
  show ?thesis
    unfolding rne_def Let_def f by (auto simp add: algebra_simps)
qed

lemma ilog2_mono:
  assumes "0 < x" "x \<le> y"
  shows "ilog2 x \<le> ilog2 y"
proof (rule ccontr)
  assume "\<not> ilog2 x \<le> ilog2 y"
  then have le: "ilog2 y + 1 \<le> ilog2 x" by simp
  have "0 < y" using assms by simp
  then have "y < 2 powi (ilog2 y + 1)" using ilog2_bounds by blast
  also have "\<dots> \<le> 2 powi (ilog2 x)" using le by (intro power_int_increasing) simp_all
  also have "\<dots> \<le> x" using ilog2_bounds[OF assms(1)] by blast
  finally show False using assms(2) by simp
qed

lemma quantum_scale: "(2::rat) powi (e - int p + 1) * 2 ^ p = 2 powi (e + 1)"
proof -
  have "(2::rat) powi (e + 1) = 2 powi ((e - int p + 1) + int p)" by simp
  also have "\<dots> = 2 powi (e - int p + 1) * 2 powi (int p)"
    by (subst power_int_add) simp_all
  finally show ?thesis by simp
qed

lemma quantum_scale': "1 \<le> p \<Longrightarrow> (2::rat) powi (e - int p + 1) * 2 ^ (p - 1) = 2 powi e"
proof -
  assume "1 \<le> p"
  then have "(2::rat) powi e = 2 powi ((e - int p + 1) + int (p - 1))" by (simp add: of_nat_diff)
  also have "\<dots> = 2 powi (e - int p + 1) * 2 powi (int (p - 1))"
    by (subst power_int_add) simp_all
  finally show ?thesis by simp
qed

lemma round_bin_pos:
  assumes "0 < x"
  shows "round_bin p emin x =
    of_int (rne (x / 2 powi (max (ilog2 x) emin - int p + 1))) * 2 powi (max (ilog2 x) emin - int p + 1)"
  using assms by (simp add: round_bin_def Let_def)

lemma round_bin_upper:
  assumes "0 < x"
  shows "round_bin p emin x \<le> 2 powi (max (ilog2 x) emin + 1)"
proof -
  define e where "e = max (ilog2 x) emin"
  define q :: rat where "q = 2 powi (e - int p + 1)"
  have q0: "0 < q" by (simp add: q_def)
  have "x < 2 powi (ilog2 x + 1)" using ilog2_bounds[OF assms] by blast
  also have "\<dots> \<le> 2 powi (e + 1)" by (intro power_int_increasing) (simp_all add: e_def)
  also have "\<dots> = q * 2 ^ p" by (simp add: q_def quantum_scale)
  finally have "x / q \<le> 2 ^ p" using q0 by (simp add: field_simps)
  then have "x / q \<le> of_int (2 ^ p)" by simp
  then have "rne (x / q) \<le> 2 ^ p" by (rule rne_upper)
  then have "(of_int (rne (x / q)) :: rat) \<le> of_int (2 ^ p)" by (simp only: of_int_le_iff)
  then have "of_int (rne (x / q)) * q \<le> 2 ^ p * q" using q0 by simp
  also have "\<dots> = 2 powi (e + 1)" unfolding q_def by (subst mult.commute) (rule quantum_scale)
  finally show ?thesis using assms by (simp add: round_bin_pos e_def q_def)
qed

lemma round_bin_lower:
  assumes "0 < x" "1 \<le> p" "emin \<le> ilog2 x"
  shows "2 powi (ilog2 x) \<le> round_bin p emin x"
proof -
  define e where "e = ilog2 x"
  define q :: rat where "q = 2 powi (e - int p + 1)"
  have q0: "0 < q" by (simp add: q_def)
  have m: "max (ilog2 x) emin = e" using assms(3) by (simp add: e_def)
  have qs: "q * 2 ^ (p - 1) = 2 powi e" unfolding q_def by (rule quantum_scale'[OF assms(2)])
  then have "q * 2 ^ (p - 1) = 2 powi e" .
  also have "\<dots> \<le> x" using ilog2_bounds[OF assms(1)] by (simp add: e_def)
  finally have "of_int (2 ^ (p - 1)) \<le> x / q" using q0 by (simp add: field_simps)
  then have "2 ^ (p - 1) \<le> rne (x / q)" by (rule rne_lower)
  then have "(of_int (2 ^ (p - 1)) :: rat) \<le> of_int (rne (x / q))" by (simp only: of_int_le_iff)
  then have "2 ^ (p - 1) * q \<le> of_int (rne (x / q)) * q" using q0 by simp
  moreover have "2 ^ (p - 1) * q = 2 powi e" using qs by (simp only: mult.commute)
  ultimately show ?thesis using assms(1) by (simp add: round_bin_pos m) (simp add: e_def q_def)
qed

lemma round_bin_mono_pos:
  assumes "0 < x" "x \<le> y" "1 \<le> p"
  shows "round_bin p emin x \<le> round_bin p emin y"
proof -
  have y0: "0 < y" using assms by simp
  define ex where "ex = max (ilog2 x) emin"
  define ey where "ey = max (ilog2 y) emin"
  have "ex \<le> ey" using ilog2_mono[OF assms(1,2)] by (simp add: ex_def ey_def)
  then consider "ex = ey" | "ex + 1 \<le> ey" by linarith
  then show ?thesis
  proof cases
    case 1
    define q :: rat where "q = 2 powi (ey - int p + 1)"
    have q0: "0 < q" by (simp add: q_def)
    have "x / q \<le> y / q" using assms(2) q0 by (simp add: divide_right_mono)
    then have "rne (x / q) \<le> rne (y / q)" by (rule rne_mono)
    then have "(of_int (rne (x / q)) :: rat) \<le> of_int (rne (y / q))" by (simp only: of_int_le_iff)
    then have "of_int (rne (x / q)) * q \<le> of_int (rne (y / q)) * q" using q0 by simp
    then show ?thesis
      using assms(1) y0 1 by (simp add: round_bin_pos flip: ex_def ey_def q_def)
  next
    case 2
    then have n: "emin \<le> ilog2 y" and ey: "ey = ilog2 y"
      by (auto simp add: ex_def ey_def)
    have "round_bin p emin x \<le> 2 powi (ex + 1)"
      using round_bin_upper[OF assms(1)] by (simp add: ex_def)
    also have "\<dots> \<le> 2 powi ey" using 2 by (intro power_int_increasing) simp_all
    also have "\<dots> \<le> round_bin p emin y"
      using round_bin_lower[OF y0 assms(3) n] by (simp add: ey)
    finally show ?thesis .
  qed
qed

lemma round_bin_minus: "round_bin p emin (- x) = - round_bin p emin x"
  by (simp add: round_bin_def Let_def rne_minus)

lemma round_bin_nonneg:
  assumes "0 \<le> x"
  shows "0 \<le> round_bin p emin x"
proof (cases "x = 0")
  case True
  then show ?thesis by (simp add: round_bin_def)
next
  case False
  with assms have x0: "0 < x" by simp
  define q :: rat where "q = 2 powi (max (ilog2 x) emin - int p + 1)"
  have q0: "0 < q" by (simp add: q_def)
  have "of_int 0 \<le> x / q" using x0 q0 by simp
  then have "0 \<le> rne (x / q)" by (rule rne_lower)
  then show ?thesis using x0 q0 by (simp add: round_bin_pos flip: q_def)
qed

lemma round_bin_mono:
  assumes "x \<le> y" "1 \<le> p"
  shows "round_bin p emin x \<le> round_bin p emin y"
proof -
  consider "0 < x" | "x \<le> 0" "0 \<le> y" | "y < 0" using assms(1) by linarith
  then show ?thesis
  proof cases
    case 1
    then show ?thesis using assms by (rule round_bin_mono_pos)
  next
    case 2
    have "0 \<le> round_bin p emin (- x)" using 2(1) by (intro round_bin_nonneg) simp
    then have "round_bin p emin x \<le> 0" by (simp add: round_bin_minus)
    also have "0 \<le> round_bin p emin y" using 2(2) by (rule round_bin_nonneg)
    finally show ?thesis .
  next
    case 3
    have "round_bin p emin (- y) \<le> round_bin p emin (- x)"
      using 3 assms by (intro round_bin_mono_pos) simp_all
    then show ?thesis by (simp add: round_bin_minus)
  qed
qed

lemma ilog2_less:
  assumes "0 < x" "x < 2 ^ p"
  shows "ilog2 x < int p"
proof (rule ccontr)
  assume "\<not> ilog2 x < int p"
  then have "(2::rat) powi (int p) \<le> 2 powi (ilog2 x)" by (intro power_int_increasing) simp_all
  also have "\<dots> \<le> x" using ilog2_bounds[OF assms(1)] by blast
  finally show False using assms(2) by simp
qed

lemma round_bin_of_int_pos:
  assumes "0 < n" "n < 2 ^ p" "emin < int p"
  shows "round_bin p emin (of_int n) = of_int n"
proof -
  define x :: rat where "x = of_int n"
  have x0: "0 < x" using assms(1) by (simp add: x_def)
  have "x < of_int (2 ^ p)" unfolding x_def using assms(2) by (simp only: of_int_less_iff)
  then have "x < 2 ^ p" by simp
  then have "ilog2 x < int p" using x0 by (intro ilog2_less)
  then have le: "max (ilog2 x) emin - int p + 1 \<le> 0" using assms(3) by simp
  define d where "d = nat (- (max (ilog2 x) emin - int p + 1))"
  have j: "max (ilog2 x) emin - int p + 1 = - int d" unfolding d_def using le by linarith
  have q: "(2::rat) powi (- int d) = 1 / 2 ^ d" by (simp add: power_int_minus field_simps)
  have "x / (1 / 2 ^ d) = of_int (n * 2 ^ d)" by (simp add: x_def)
  then have "rne (x / (1 / 2 ^ d)) = n * 2 ^ d" by (simp only: rne_of_int)
  then have "round_bin p emin x = of_int (n * 2 ^ d) * (1 / 2 ^ d)"
    using x0 by (simp add: round_bin_pos j q)
  also have "\<dots> = x" by (simp add: x_def)
  finally show ?thesis by (simp add: x_def)
qed

lemma round_bin_of_int:
  assumes "\<bar>n\<bar> < 2 ^ p" "emin < int p"
  shows "round_bin p emin (of_int n) = of_int n"
proof -
  consider "n = 0" | "0 < n" | "n < 0" by linarith
  then show ?thesis
  proof cases
    case 1
    then show ?thesis by (simp add: round_bin_def)
  next
    case 2
    then show ?thesis using assms by (intro round_bin_of_int_pos) simp_all
  next
    case 3
    then have "round_bin p emin (of_int (- n)) = of_int (- n)"
      using assms by (intro round_bin_of_int_pos) simp_all
    then show ?thesis by (simp add: round_bin_minus)
  qed
qed

lemma f32_of_nat_exact: "n < 2 ^ 24 \<Longrightarrow> f32_of_nat n = Finite (of_nat n)"
proof -
  assume a: "n < 2 ^ 24"
  then have "\<bar>int n\<bar> < 2 ^ 24" by (simp add: of_nat_less_numeral_power_cancel_iff)
  then have "round_bin 24 (- 126) (of_int (int n)) = of_int (int n)"
    by (intro round_bin_of_int) simp_all
  then have r: "round_bin 24 (- 126) (of_nat n) = of_nat n" by simp
  have "(of_nat n :: rat) < 2 ^ 24" using a by (simp add: of_nat_less_numeral_power_cancel_iff)
  also have "(2::rat) ^ 24 < 2 ^ 128" by simp
  finally show ?thesis by (simp add: f32_of_nat_def f32_round_def overflow_def r)
qed

lemma f64_of_int_exact: "\<bar>n\<bar> < 2 ^ 53 \<Longrightarrow> f64_of_int n = Finite (of_int n)"
proof -
  assume a: "\<bar>n\<bar> < 2 ^ 53"
  then have r: "round_bin 53 (- 1022) (of_int n) = of_int n"
    by (intro round_bin_of_int) simp_all
  have "\<bar>of_int n :: rat\<bar> = of_int \<bar>n\<bar>" by simp
  also have "\<dots> < of_int (2 ^ 53)" using a by (simp only: of_int_less_iff)
  also have "\<dots> < 2 ^ 1024" by simp
  finally show ?thesis by (simp add: f64_of_int_def f64_round_def overflow_def r)
qed

lemma sint_height_pred:
  assumes "height \<noteq> 0" "uint height \<le> 2 ^ 31"
  shows "sint (height - 1 :: 32 word) = uint height - 1"
proof -
  have "uint height \<noteq> 0" using assms(1) by (simp add: uint_0_iff)
  then have pos: "1 \<le> uint height" using uint_ge_0[of height] by linarith
  then have "uint (1 :: 32 word) \<le> uint height" by simp
  then have u: "uint (height - 1) = uint height - 1"
    by (simp add: uint_sub_lem [THEN iffD1])
  have "sint (height - 1) = signed_take_bit 31 (uint (height - 1))"
    by (simp add: sint_uint)
  also have "\<dots> = uint height - 1"
    unfolding u using pos assms(2) by (intro signed_take_bit_int_eq_self) simp_all
  finally show ?thesis .
qed

lemma word_of_int_less_height:
  assumes "0 \<le> t" "t < uint (height :: 32 word)"
  shows "(word_of_int t :: 32 word) < height"
proof -
  have "uint height < 2 ^ 32" using uint_bounded[of height] by simp
  then have "t < 2 ^ 32" using assms(2) by linarith
  then have "uint (word_of_int t :: 32 word) = t"
    using assms(1) by (simp add: uint_word_of_int)
  then show ?thesis using assms(2) by (simp add: word_less_def)
qed

lemma trunc_mono:
  assumes "x \<le> y"
  shows "trunc x \<le> trunc y"
proof -
  consider "0 \<le> x" | "y < 0" | "x < 0" "0 \<le> y" using assms by linarith
  then show ?thesis
  proof cases
    case 1
    then show ?thesis using assms by (simp add: trunc_def floor_mono)
  next
    case 2
    then show ?thesis using assms by (simp add: trunc_def ceiling_mono)
  next
    case 3
    have a: "\<lceil>x\<rceil> \<le> 0" using 3(1) by (simp add: ceiling_le_iff)
    have b: "0 \<le> \<lfloor>y\<rfloor>" using 3(2) by simp
    have tx: "trunc x = \<lceil>x\<rceil>" using 3(1) by (simp add: trunc_def)
    have ty: "trunc y = \<lfloor>y\<rfloor>" using 3(2) by (simp add: trunc_def)
    show ?thesis unfolding tx ty using a b by linarith
  qed
qed

lemma clamp_mono: "x \<le> y \<Longrightarrow> clamp lower upper x \<le> clamp lower upper y"
  by (simp add: clamp_def min_def max_def)

lemma clamp_bounds: "lower \<le> upper \<Longrightarrow> lower \<le> clamp lower upper x \<and> clamp lower upper x \<le> upper"
  by (simp add: clamp_def min_def max_def)


section \<open>The ratio test\<close>

lemma kLoweRatio_value: "kLoweRatio = Finite (13421773 / 16777216)"
proof -
  have "round_bin 24 (- 126) (4 / 5) = 13421773 / 16777216" by code_simp
  then show ?thesis by (simp add: kLoweRatio_def f32_round_def overflow_def)
qed

lemma round_below_lowe: "round_bin 24 (- 126) (26843545 / 33554432) = 13421772 / 16777216"
  by code_simp

lemma round_bin_one: "0 < p \<Longrightarrow> emin < int p \<Longrightarrow> round_bin p emin 1 = 1"
  using round_bin_of_int[of 1 p emin] by simp

lemma round_bin_unit:
  assumes "0 \<le> x" "x \<le> 1" "0 < p" "emin < int p"
  shows "0 \<le> round_bin p emin x \<and> round_bin p emin x \<le> 1"
proof -
  have "round_bin p emin x \<le> round_bin p emin 1"
    using assms by (intro round_bin_mono) simp_all
  then show ?thesis using assms round_bin_nonneg[of x p emin] by (simp add: round_bin_one)
qed

lemma lowe_arith:
  fixes a b :: nat
  assumes "5 * a < 4 * b" "b < 11184814"
  shows "33554432 * a \<le> 26843545 * b"
proof (cases "b \<le> 11184810")
  case True
  then show ?thesis using assms(1) by linarith
next
  case False
  then consider "b = 11184811" | "b = 11184812" | "b = 11184813" using assms(2) by linarith
  then show ?thesis
  proof cases
    case 1
    then show ?thesis using assms(1) by linarith
  next
    case 2
    then show ?thesis using assms(1) by linarith
  next
    case 3
    have "a \<noteq> 8947851" using assms(1) 3 by simp
    then show ?thesis using assms(1) 3 by linarith
  qed
qed


text \<open>
  Claim C2, as amended. For distances \<open>d1 \<le> d2\<close> with \<open>d2 < 11184814\<close>, the
  ratio test returns true if \<open>d2 > bits\<close>, true if \<open>d2 = 0\<close>, and otherwise true
  exactly when the exact quotient \<open>d1 / d2\<close> is below 0.8: up to that size the
  single-precision division and the single-precision constant \<open>0.8f\<close> decide the
  comparison as the exact numbers do.
\<close>

theorem ratioTest_law:
  assumes "distance_closest \<le> distance_second_closest"
    and "unat distance_second_closest < 11184814"
  shows "ratioTest descriptor_size_bits distance_closest distance_second_closest =
         Inr (ratioTest_spec descriptor_size_bits distance_closest distance_second_closest)"
proof (cases "distance_second_closest > descriptor_size_bits \<or> distance_second_closest = 0")
  case True
  then show ?thesis using assms(1) by (auto simp add: ratioTest_def ratioTest_spec_def)
next
  case False
  define a where "a = unat distance_closest"
  define b where "b = unat distance_second_closest"
  have b0: "0 < b" using False by (simp add: b_def unat_gt_0)
  have ab: "a \<le> b" using assms(1) by (simp add: a_def b_def word_le_nat_alt)
  have b24: "b < 2 ^ 24" using assms(2) by (simp add: b_def)
  then have a24: "a < 2 ^ 24" using ab by simp
  define x :: rat where "x = of_nat a / of_nat b"
  have x01: "0 \<le> x" "x \<le> 1" using ab b0 by (simp_all add: x_def)
  have r01: "0 \<le> round_bin 24 (- 126) x \<and> round_bin 24 (- 126) x \<le> 1"
    using x01 by (intro round_bin_unit) simp_all
  then have fin: "f32_round x = Finite (round_bin 24 (- 126) x)"
    by (simp add: f32_round_def overflow_def)
  have quot: "f32_div (f32_of_nat a) (f32_of_nat b) = Finite (round_bin 24 (- 126) x)"
    using b0 by (simp add: f32_div_def f32_of_nat_exact[OF a24] f32_of_nat_exact[OF b24] fin[unfolded x_def] x_def)
  have iff: "round_bin 24 (- 126) x < 13421773 / 16777216 \<longleftrightarrow> x < 4 / 5"
  proof
    assume "x < 4 / 5"
    then have "5 * a < 4 * b" using b0 unfolding x_def
      by (simp add: field_simps)
    then have "33554432 * a \<le> 26843545 * b" using assms(2) unfolding b_def by (intro lowe_arith)
    then have "(of_nat (33554432 * a) :: rat) \<le> of_nat (26843545 * b)" by (simp only: of_nat_le_iff)
    then have "x \<le> 26843545 / 33554432" using b0 by (simp add: x_def field_simps)
    then have "round_bin 24 (- 126) x \<le> round_bin 24 (- 126) (26843545 / 33554432)"
      by (intro round_bin_mono) simp_all
    then show "round_bin 24 (- 126) x < 13421773 / 16777216" by (simp add: round_below_lowe)
  next
    assume l: "round_bin 24 (- 126) x < 13421773 / 16777216"
    show "x < 4 / 5"
    proof (rule ccontr)
      assume "\<not> x < 4 / 5"
      then have "round_bin 24 (- 126) (4 / 5) \<le> round_bin 24 (- 126) x"
        by (intro round_bin_mono) simp_all
      moreover have "round_bin 24 (- 126) (4 / 5) = 13421773 / 16777216" by code_simp
      ultimately show False using l by simp
    qed
  qed
  show ?thesis
    using False assms(1) iff
    by (simp add: ratioTest_def ratioTest_spec_def quot[unfolded a_def b_def] kLoweRatio_value
        x_def a_def b_def)
qed


theorem ratioTest_law_witness:
  "(3 :: 32 word) \<le> 7 \<and> unat (7 :: 32 word) < 11184814 \<and>
   ratioTest 256 3 7 = Inr True \<and> ratioTest_spec 256 3 7"
  using ratioTest_law[of 3 7 256] by (simp add: ratioTest_spec_def)


text \<open>
  From \<open>d2 = 11184814\<close> on the law fails. The quotient \<open>8947851 / 11184814\<close> is
  below 0.8, but it lies above the midpoint \<open>26843545 / 33554432\<close> of the two
  neighbouring single-precision numbers \<open>13421772 / 16777216\<close> and
  \<open>13421773 / 16777216\<close>. The division therefore returns the latter, which is
  \<open>0.8f\<close> itself, and the comparison \<open>0.8f < 0.8f\<close> is false.
\<close>

theorem ratioTest_law_counterexample:
  "(8947851 :: 32 word) \<le> 11184814 \<and>
   f32_div (f32_of_nat 8947851) (f32_of_nat 11184814) = Finite (13421773 / 16777216) \<and>
   kLoweRatio = Finite (13421773 / 16777216) \<and>
   ratioTest 11184814 8947851 11184814 = Inr False \<and>
   ratioTest_spec 11184814 8947851 11184814"
proof -
  have r: "round_bin 24 (- 126) (8947851 / 11184814) = 13421773 / 16777216" by code_simp
  have a: "f32_of_nat 8947851 = Finite 8947851"
    using f32_of_nat_exact[of 8947851] by simp
  have b: "f32_of_nat 11184814 = Finite 11184814"
    using f32_of_nat_exact[of 11184814] by simp
  have q: "f32_div (f32_of_nat 8947851) (f32_of_nat 11184814) = Finite (13421773 / 16777216)"
    by (simp add: a b f32_div_def f32_round_def overflow_def r)
  have "ratioTest 11184814 8947851 11184814 = Inr False"
    by (simp add: ratioTest_def q kLoweRatio_value)
  moreover have "ratioTest_spec 11184814 8947851 11184814"
    by (simp add: ratioTest_spec_def)
  ultimately show ?thesis using q kLoweRatio_value by simp
qed

text \<open>
  Claim C10. With a descriptor size of zero bits the ratio test returns true for
  every pair of distances \<open>d1 \<le> d2\<close>: a positive \<open>d2\<close> exceeds the size, and
  \<open>d2 = 0\<close> is the degenerate branch.
\<close>

theorem ratioTest_zero_bits:
  assumes "distance_closest \<le> distance_second_closest"
  shows "ratioTest 0 distance_closest distance_second_closest = Inr True"
  using assms by (simp add: ratioTest_def word_gt_0)

theorem ratioTest_zero_bits_witness:
  "(3 :: 32 word) \<le> 7 \<and> ratioTest 0 3 7 = Inr True"
  using ratioTest_zero_bits[of 3 7] by simp

section \<open>The matching score\<close>

lemma rne_error: "\<bar>of_int (rne x) - x\<bar> \<le> 1 / 2"
proof -
  define r where "r = x - of_int \<lfloor>x\<rfloor>"
  have r: "0 \<le> r" "r < 1" unfolding r_def by linarith+
  have x: "x = of_int \<lfloor>x\<rfloor> + r" by (simp add: r_def)
  have "rne x = (if r < 1 / 2 then \<lfloor>x\<rfloor> else if 1 / 2 < r then \<lfloor>x\<rfloor> + 1
                 else if even \<lfloor>x\<rfloor> then \<lfloor>x\<rfloor> else \<lfloor>x\<rfloor> + 1)"
    by (simp add: rne_def Let_def r_def)
  then consider "rne x = \<lfloor>x\<rfloor>" "r \<le> 1 / 2" | "rne x = \<lfloor>x\<rfloor> + 1" "1 / 2 \<le> r"
    by (cases "r < 1 / 2"; cases "1 / 2 < r"; cases "even \<lfloor>x\<rfloor>") auto
  then show ?thesis
  proof cases
    case 1
    have "of_int (rne x) - x = - r" using 1(1) by (simp add: r_def)
    then show ?thesis using r 1(2) by simp
  next
    case 2
    have "of_int (rne x) - x = 1 - r" using 2(1) by (simp add: r_def)
    then show ?thesis using r 2(2) by simp
  qed
qed

lemma round_bin_error:
  assumes "0 < x"
  shows "\<bar>round_bin p emin x - x\<bar> \<le> 2 powi (max (ilog2 x) emin - int p + 1) / 2"
proof -
  define q :: rat where "q = 2 powi (max (ilog2 x) emin - int p + 1)"
  have q0: "0 < q" by (simp add: q_def)
  have "round_bin p emin x = of_int (rne (x / q)) * q"
    unfolding q_def using assms by (rule round_bin_pos)
  then have "round_bin p emin x - x = (of_int (rne (x / q)) - x / q) * q"
    using q0 by (simp add: algebra_simps)
  then have "\<bar>round_bin p emin x - x\<bar> = \<bar>of_int (rne (x / q)) - x / q\<bar> * q"
    using q0 by (simp add: abs_mult)
  also have "\<dots> \<le> (1 / 2) * q" using q0 rne_error[of "x / q"] by (intro mult_right_mono) simp_all
  finally show ?thesis by (simp add: q_def)
qed

lemma ilog2_unit:
  assumes "0 < x" "x \<le> 1"
  shows "ilog2 x \<le> 0"
proof (rule ccontr)
  assume "\<not> ilog2 x \<le> 0"
  then have "(2::rat) powi 1 \<le> 2 powi (ilog2 x)" by (intro power_int_increasing) simp_all
  also have "\<dots> \<le> x" using ilog2_bounds[OF assms(1)] by blast
  finally show False using assms(2) by simp
qed

lemma f64_round_unit_error:
  assumes "0 \<le> x" "x \<le> 1"
  shows "\<bar>round_bin 53 (- 1022) x - x\<bar> \<le> 1 / 2 ^ 53"
proof (cases "x = 0")
  case True
  then show ?thesis by (simp add: round_bin_def)
next
  case False
  then have x0: "0 < x" using assms(1) by simp
  have "max (ilog2 x) (- 1022) - int 53 + 1 \<le> - 52" using ilog2_unit[OF x0 assms(2)] by simp
  then have "(2::rat) powi (max (ilog2 x) (- 1022) - int 53 + 1) \<le> 2 powi (- 52)"
    by (intro power_int_increasing) simp_all
  also have "\<dots> = 1 / 2 ^ 52" by (simp add: power_int_minus field_simps)
  finally have "(2::rat) powi (max (ilog2 x) (- 1022) - int 53 + 1) / 2 \<le> 1 / 2 ^ 53" by simp
  then show ?thesis using round_bin_error[OF x0, of 53 "- 1022"] by linarith
qed

lemma f64_round_unit:
  assumes "0 \<le> x" "x \<le> 1"
  shows "f64_round x = Finite (round_bin 53 (- 1022) x)"
proof -
  have "0 \<le> round_bin 53 (- 1022) x \<and> round_bin 53 (- 1022) x \<le> 1"
    using assms by (intro round_bin_unit) simp_all
  then show ?thesis by (simp add: f64_round_def overflow_def)
qed

lemma ilog2_less_powi:
  assumes "0 < x" "x < 2 powi m"
  shows "ilog2 x < m"
proof (rule ccontr)
  assume "\<not> ilog2 x < m"
  then have "(2::rat) powi m \<le> 2 powi (ilog2 x)" by (intro power_int_increasing) simp_all
  also have "\<dots> \<le> x" using ilog2_bounds[OF assms(1)] by blast
  finally show False using assms(2) by simp
qed

lemma round_bin_dyadic:
  assumes "0 < n" "n < 2 ^ p" "emin + int k < int p"
  shows "round_bin p emin (of_int n / 2 ^ k) = of_int n / 2 ^ k"
proof -
  define x :: rat where "x = of_int n / 2 ^ k"
  have x0: "0 < x" using assms(1) by (simp add: x_def)
  have "(of_int n :: rat) < of_int (2 ^ p)" using assms(2) by (simp only: of_int_less_iff)
  then have "x < 2 ^ p / 2 ^ k" by (simp add: x_def divide_strict_right_mono)
  also have "\<dots> = 2 powi (int p - int k)" by (simp add: power_int_diff)
  finally have "ilog2 x < int p - int k" using x0 by (intro ilog2_less_powi)
  then have le: "max (ilog2 x) emin - int p + 1 + int k \<le> 0" using assms(3) by simp
  define d where "d = nat (- (max (ilog2 x) emin - int p + 1 + int k))"
  have j: "max (ilog2 x) emin - int p + 1 = - int (k + d)" unfolding d_def using le by linarith
  have q: "(2::rat) powi (- int (k + d)) = 1 / 2 ^ (k + d)"
    by (simp only: power_int_minus power_int_of_nat inverse_eq_divide)
  have "x / (1 / 2 ^ (k + d)) = of_int (n * 2 ^ d)" by (simp add: x_def power_add)
  then have r: "rne (x / (1 / 2 ^ (k + d))) = n * 2 ^ d" by (simp only: rne_of_int)
  have Q: "(2::rat) powi (max (ilog2 x) emin - int p + 1) = 1 / 2 ^ (k + d)"
    unfolding j by (rule q)
  have "round_bin p emin x = of_int (n * 2 ^ d) * (1 / 2 ^ (k + d))"
    by (simp only: round_bin_pos[OF x0] Q r)
  also have "\<dots> = x" by (simp add: x_def power_add)
  finally show ?thesis by (simp add: x_def)
qed

lemma score_exact_power_of_two:
  assumes "b = 2 ^ k" "b < 2 ^ 32" "d \<le> b"
  shows "round_bin 53 (- 1022) (1 - of_nat d / of_nat b) = 1 - of_nat d / of_nat b"
proof (cases "d = b")
  case True
  then show ?thesis using assms(1) by (simp add: round_bin_def)
next
  case False
  then have lt: "d < b" using assms(3) by simp
  have "(2::nat) ^ k < 2 ^ 32" using assms(2) unfolding assms(1) .
  then have k: "k < 32" by (rule power_less_imp_less_exp[rotated]) simp
  define n where "n = int b - int d"
  have n: "0 < n" "n < 2 ^ 53"
  proof -
    show "0 < n" using lt by (simp add: n_def)
    have "n \<le> int b" by (simp add: n_def)
    also have "int b < 2 ^ 32" using assms(2) by (simp add: of_nat_less_numeral_power_cancel_iff)
    also have "(2::int) ^ 32 < 2 ^ 53" by simp
    finally show "n < 2 ^ 53" .
  qed
  have e: "(1 :: rat) - of_nat d / of_nat b = of_int n / 2 ^ k"
    using lt assms(1) by (simp add: n_def field_simps)
  have "round_bin 53 (- 1022) (of_int n / 2 ^ k) = of_int n / 2 ^ k"
    using n k by (intro round_bin_dyadic) simp_all
  then show ?thesis by (simp only: e)
qed

lemma overflow_Finite: "overflow limit r = Finite s \<longleftrightarrow> s = r \<and> \<bar>r\<bar> < limit"
  by (auto simp add: overflow_def)

lemma f64_round_eval:
  assumes "round_bin 53 (- 1022) x = r" "\<bar>r\<bar> < 2 ^ 1024"
  shows "f64_round x = Finite r"
  unfolding f64_round_def overflow_Finite using assms by simp

lemma sint_word_of_int_small:
  assumes "0 \<le> n" "n < 2 ^ 31"
  shows "sint (word_of_int n :: 32 word) = n"
proof -
  have "n < 2 ^ 32" using assms(2) by simp
  then have u: "uint (word_of_int n :: 32 word) = n" using assms(1) by (simp add: uint_word_of_int)
  have "sint (word_of_int n :: 32 word) = signed_take_bit 31 (uint (word_of_int n :: 32 word))"
    by (simp add: sint_uint)
  also have "\<dots> = n" unfolding u using assms by (intro signed_take_bit_int_eq_self) simp_all
  finally show ?thesis .
qed

text \<open>
  Claim C3, as amended. For a descriptor size \<open>bits > 0\<close> and a Hamming distance
  \<open>d \<le> bits\<close> whose number of matching bits \<open>bits - d\<close> fits the \<open>int\<close> parameter
  (it is at most \<open>2\<^sup>3\<^sup>1 - 1\<close>), \<open>computeMatchingScore(bits - d, bits)\<close> is the \<open>double\<close>
  nearest to \<open>1 - d / bits\<close>, which is within \<open>2\<^sup>-\<^sup>5\<^sup>3\<close> of it; for a descriptor size
  that is a power of two it is \<open>1 - d / bits\<close> itself.
\<close>

theorem computeMatchingScore_value:
  assumes "0 < descriptor_size_bits" and "d \<le> unat descriptor_size_bits"
    and "int (unat descriptor_size_bits) - int d < 2 ^ 31"
  shows "computeMatchingScore (word_of_int (int (unat descriptor_size_bits) - int d))
             descriptor_size_bits =
           Finite (round_bin 53 (- 1022) (score_spec (unat descriptor_size_bits) d)) \<and>
         \<bar>round_bin 53 (- 1022) (score_spec (unat descriptor_size_bits) d) -
            score_spec (unat descriptor_size_bits) d\<bar> \<le> 1 / 2 ^ 53 \<and>
         (unat descriptor_size_bits = 2 ^ k \<longrightarrow>
            computeMatchingScore (word_of_int (int (unat descriptor_size_bits) - int d))
                descriptor_size_bits =
              Finite (score_spec (unat descriptor_size_bits) d))"
proof -
  define b where "b = unat descriptor_size_bits"
  have b0: "0 < b" using assms(1) by (simp add: b_def unat_gt_0)
  have b32: "b < 2 ^ 32" using unsigned_less[of descriptor_size_bits, where 'a = nat] by (simp add: b_def)
  define x :: rat where "x = 1 - of_nat d / of_nat b"
  have db: "d \<le> b" using assms(2) by (simp add: b_def)
  then have x01: "0 \<le> x" "x \<le> 1" using b0 by (simp_all add: x_def)
  have ub: "uint descriptor_size_bits = int b" by (simp add: b_def)
  define n where "n = int b - int d"
  have n31: "n < 2 ^ 31" using assms(3) by (simp add: b_def n_def)
  have n0: "0 \<le> n" using db by (simp add: n_def)
  have sn: "sint (word_of_int n :: 32 word) = n"
    using n0 n31 by (rule sint_word_of_int_small)
  have nb: "\<bar>int b\<bar> < 2 ^ 53" using b32 by simp
  have nn: "\<bar>n\<bar> < 2 ^ 53" using n0 n31 by simp
  have quot: "(of_int n :: rat) / of_int (int b) = x"
    using b0 db by (simp add: x_def n_def field_simps of_nat_diff)
  have bz: "(of_int (int b) :: rat) \<noteq> 0" using b0 by simp
  have "computeMatchingScore (word_of_int n) descriptor_size_bits =
      f64_div (Finite (of_int n)) (Finite (of_int (int b)))"
    unfolding computeMatchingScore_def sn ub
    by (simp only: f64_of_int_exact[OF nb] f64_of_int_exact[OF nn])
  also have "\<dots> = f64_round x"
    unfolding f64_div_def fp_div.simps using bz by (simp only: quot if_False)
  finally have v: "computeMatchingScore (word_of_int n) descriptor_size_bits =
      Finite (round_bin 53 (- 1022) x)"
    by (simp only: f64_round_unit[OF x01])
  have e: "\<bar>round_bin 53 (- 1022) x - x\<bar> \<le> 1 / 2 ^ 53"
    using x01 by (rule f64_round_unit_error)
  have p: "b = 2 ^ k \<longrightarrow>
      computeMatchingScore (word_of_int n) descriptor_size_bits = Finite x"
  proof
    assume "b = 2 ^ k"
    then have "round_bin 53 (- 1022) x = x"
      unfolding x_def using b32 db by (rule score_exact_power_of_two)
    then show "computeMatchingScore (word_of_int n) descriptor_size_bits = Finite x"
      using v by simp
  qed
  from v e p show ?thesis unfolding x_def n_def b_def score_spec_def by (intro conjI)
qed

theorem computeMatchingScore_value_witness:
  "(0 :: 32 word) < 256 \<and> (64 :: nat) \<le> unat (256 :: 32 word) \<and>
   int (unat (256 :: 32 word)) - int 64 < 2 ^ 31 \<and>
   unat (256 :: 32 word) = 2 ^ 8 \<and> computeMatchingScore 192 256 = Finite (3 / 4)"
proof -
  have "(0 :: 32 word) < 256" "(64 :: nat) \<le> unat (256 :: 32 word)"
    "int (unat (256 :: 32 word)) - int 64 < 2 ^ 31" by simp_all
  note t = computeMatchingScore_value[OF this, of 8, THEN conjunct2, THEN conjunct2]
  have "unat (256 :: 32 word) = 2 ^ 8" by simp
  with t have "computeMatchingScore (word_of_int (int (unat (256 :: 32 word)) - int 64)) 256 =
      Finite (score_spec (unat (256 :: 32 word)) 64)" by (rule mp)
  then show ?thesis by (simp add: score_spec_def)
qed

text \<open>
  As stated the claim fails in two ways. The quotient is rounded to a \<open>double\<close>:
  for \<open>bits = 384\<close> and \<open>d = 97\<close> the score is \<open>6731943192996523 / 2\<^sup>5\<^sup>3\<close>, not
  \<open>287 / 384\<close>. And a number of matching bits above \<open>2\<^sup>3\<^sup>1 - 1\<close> does not fit the
  \<open>int\<close> parameter: for \<open>bits = 3000000000\<close> and \<open>d = 0\<close> the argument converts to
  \<open>-1294967296\<close> and the score is negative.
\<close>

theorem computeMatchingScore_value_counterexample:
  "(0 :: 32 word) < 384 \<and> (97 :: nat) \<le> unat (384 :: 32 word) \<and>
   computeMatchingScore (word_of_int (int (unat (384 :: 32 word)) - int 97)) 384 =
     Finite (6731943192996523 / 9007199254740992) \<and>
   score_spec 384 97 = 287 / 384 \<and>
   (6731943192996523 / 9007199254740992 :: rat) \<noteq> 287 / 384 \<and>
   (0 :: 32 word) < 3000000000 \<and> (0 :: nat) \<le> unat (3000000000 :: 32 word) \<and>
   sint (word_of_int (int (unat (3000000000 :: 32 word)) - int 0) :: 32 word) = - 1294967296 \<and>
   computeMatchingScore (word_of_int (int (unat (3000000000 :: 32 word)) - int 0)) 3000000000 =
     Finite (- 7776018975630105 / 18014398509481984) \<and>
   score_spec 3000000000 0 = 1"
proof -
  have f1: "f64_round (287 / 384) = Finite (6731943192996523 / 9007199254740992)"
    by (rule f64_round_eval) (code_simp, simp)
  have a1: "f64_of_int 287 = Finite 287" using f64_of_int_exact[of 287] by simp
  have b1: "f64_of_int 384 = Finite 384" using f64_of_int_exact[of 384] by simp
  have s1: "sint (word_of_int (int (unat (384 :: 32 word)) - int 97) :: 32 word) = 287" by simp
  have u1: "uint (384 :: 32 word) = 384" by simp
  have d1: "f64_div (Finite 287) (Finite 384) = f64_round (287 / 384)"
    by (simp add: f64_div_def)
  have c1: "computeMatchingScore (word_of_int (int (unat (384 :: 32 word)) - int 97)) 384 =
      Finite (6731943192996523 / 9007199254740992)"
    unfolding computeMatchingScore_def s1 u1 a1 b1 d1 by (rule f1)
  have f2: "f64_round (- 1294967296 / 3000000000) =
      Finite (- 7776018975630105 / 18014398509481984)"
    by (rule f64_round_eval) (code_simp, simp)
  have a2: "f64_of_int (- 1294967296) = Finite (- 1294967296)"
    using f64_of_int_exact[of "- 1294967296"] by simp
  have b2: "f64_of_int 3000000000 = Finite 3000000000"
    using f64_of_int_exact[of 3000000000] by simp
  have s2: "sint (word_of_int (int (unat (3000000000 :: 32 word)) - int 0) :: 32 word) =
      - 1294967296" by simp
  have u2: "uint (3000000000 :: 32 word) = 3000000000" by simp
  have d2: "f64_div (Finite (- 1294967296)) (Finite 3000000000) =
      f64_round (- 1294967296 / 3000000000)"
    by (simp add: f64_div_def)
  have c2: "computeMatchingScore (word_of_int (int (unat (3000000000 :: 32 word)) - int 0))
      3000000000 = Finite (- 7776018975630105 / 18014398509481984)"
    unfolding computeMatchingScore_def s2 u2 a2 b2 d2 by (rule f2)
  have "(0 :: 32 word) < 384" "(97 :: nat) \<le> unat (384 :: 32 word)"
    "score_spec 384 97 = 287 / 384"
    "(6731943192996523 / 9007199254740992 :: rat) \<noteq> 287 / 384"
    "(0 :: 32 word) < 3000000000" "(0 :: nat) \<le> unat (3000000000 :: 32 word)"
    "score_spec 3000000000 0 = 1"
    by (simp_all add: score_spec_def)
  with c1 c2 s2 show ?thesis by (intro conjI)
qed

section \<open>The window query\<close>

lemma to_int_Inr:
  assumes "to_int x = Inr t"
  shows "\<exists>r. x = Finite r \<and> t = trunc r \<and> - (2 ^ 31) \<le> t \<and> t < 2 ^ 31"
  using assms by (cases x) (auto simp add: to_int_def split: if_splits)

lemma fp_add_Finite:
  assumes "fp_add rnd x y = Finite r"
  shows "\<exists>a b. x = Finite a \<and> y = Finite b \<and> rnd (a + b) = Finite r"
  using assms by (cases x; cases y) simp_all

lemma overflow_between:
  assumes "overflow limit lo = Finite rl" "overflow limit hi = Finite rh" "lo \<le> r" "r \<le> hi"
  shows "overflow limit r = Finite r \<and> rl \<le> r \<and> r \<le> rh"
proof -
  have "rl = lo" "\<bar>lo\<bar> < limit" "rh = hi" "\<bar>hi\<bar> < limit"
    using assms(1,2) by (simp_all add: overflow_Finite)
  moreover from this have "\<bar>r\<bar> < limit" using assms(3,4) by linarith
  ultimately show ?thesis using assms(3,4) by (simp add: overflow_Finite)
qed

lemma f64_round_value:
  assumes "f64_round x = Finite r"
  shows "r = round_bin 53 (- 1022) x"
  using assms unfolding f64_round_def overflow_Finite by simp

lemma f64_round_between:
  assumes "f64_round lo = Finite rl" "f64_round hi = Finite rh" "lo \<le> x" "x \<le> hi"
  shows "\<exists>r. f64_round x = Finite r \<and> rl \<le> r \<and> r \<le> rh"
proof -
  have "round_bin 53 (- 1022) lo \<le> round_bin 53 (- 1022) x"
    using assms(3) by (intro round_bin_mono) simp_all
  moreover have "round_bin 53 (- 1022) x \<le> round_bin 53 (- 1022) hi"
    using assms(4) by (intro round_bin_mono) simp_all
  ultimately show ?thesis
    using overflow_between[OF assms(1,2)[unfolded f64_round_def]] unfolding f64_round_def by blast
qed

lemma f64_round_zero: "f64_round 0 = Finite 0"
  unfolding f64_round_def overflow_Finite by (simp add: round_bin_def)

lemma f64_of_int_nonneg:
  assumes "0 \<le> n" "f64_of_int n = Finite w"
  shows "0 \<le> w"
  using assms(1) f64_round_value[OF assms(2)[unfolded f64_of_int_def]]
    round_bin_nonneg[of "of_int n" 53 "- 1022"]
  by simp

lemma f64_of_int_le:
  assumes "0 \<le> n1" "n1 \<le> n2" "f64_of_int n2 = Finite w2"
  shows "\<exists>w1. f64_of_int n1 = Finite w1 \<and> 0 \<le> w1 \<and> w1 \<le> w2"
proof -
  have "\<exists>r. f64_round (of_int n1) = Finite r \<and> 0 \<le> r \<and> r \<le> w2"
    using assms(1,2)
    by (intro f64_round_between[OF f64_round_zero assms(3)[unfolded f64_of_int_def]]) simp_all
  then show ?thesis by (simp add: f64_of_int_def)
qed

text \<open>The edges of a window lie inside those of a wider window at the same position.\<close>

lemma window_rows_nested:
  assumes "0 < h1" "h1 \<le> h2"
    and "window_top_row y h2 = Inr t2" "window_bottom_row y h2 = Inr b2"
  shows "\<exists>t1 b1. window_top_row y h1 = Inr t1 \<and> window_bottom_row y h1 = Inr b1 \<and>
           t2 \<le> t1 \<and> t1 \<le> b1 \<and> b1 \<le> b2"
proof -
  define z where "z = f64_add y (Finite (1 / 2))"
  from to_int_Inr[OF assms(3)[unfolded window_top_row_def]]
  obtain rt where rt: "f64_sub z (f64_of_int h2) = Finite rt" "t2 = trunc rt" "- (2 ^ 31) \<le> t2"
    by (auto simp add: z_def)
  from to_int_Inr[OF assms(4)[unfolded window_bottom_row_def]]
  obtain rb where rb: "f64_add z (f64_of_int h2) = Finite rb" "b2 = trunc rb" "b2 < 2 ^ 31"
    by (auto simp add: z_def)
  from fp_add_Finite[OF rb(1)[unfolded f64_add_def]]
  obtain c w2 where c: "z = Finite c" and w2: "f64_of_int h2 = Finite w2"
    and hi: "f64_round (c + w2) = Finite rb" by auto
  have lo: "f64_round (c - w2) = Finite rt" using rt(1) by (simp add: f64_sub_def c w2)
  from f64_of_int_le[OF _ assms(2) w2] assms(1)
  obtain w1 where w1: "f64_of_int h1 = Finite w1" "0 \<le> w1" "w1 \<le> w2" by auto
  from f64_round_between[OF lo hi, of "c - w1"] w1
  obtain r1 where r1: "f64_round (c - w1) = Finite r1" "rt \<le> r1" "r1 \<le> rb" by auto
  from f64_round_between[OF lo hi, of "c + w1"] w1
  obtain r2 where r2: "f64_round (c + w1) = Finite r2" "rt \<le> r2" "r2 \<le> rb" by auto
  have "round_bin 53 (- 1022) (c - w1) \<le> round_bin 53 (- 1022) (c + w1)"
    using w1(2) by (intro round_bin_mono) simp_all
  then have r12: "r1 \<le> r2" using f64_round_value[OF r1(1)] f64_round_value[OF r2(1)] by simp
  have t: "t2 \<le> trunc r1" "trunc r1 \<le> trunc r2" "trunc r2 \<le> b2"
    using r1(2) r12 r2(3) by (simp_all add: rt(2) rb(2) trunc_mono)
  have range1: "- (2 ^ 31) \<le> trunc r1 \<and> trunc r1 < 2 ^ 31" using t rt(3) rb(3) by linarith
  have range2: "- (2 ^ 31) \<le> trunc r2 \<and> trunc r2 < 2 ^ 31" using t rt(3) rb(3) by linarith
  have "f64_sub z (f64_of_int h1) = Finite r1" by (simp add: c w1(1) f64_sub_def r1(1))
  then have "window_top_row y h1 = Inr (trunc r1)"
    unfolding window_top_row_def z_def[symmetric] using range1 by (simp add: to_int_def)
  moreover have "f64_add z (f64_of_int h1) = Finite r2" by (simp add: c w1(1) f64_add_def r2(1))
  then have "window_bottom_row y h1 = Inr (trunc r2)"
    unfolding window_bottom_row_def z_def[symmetric] using range2 by (simp add: to_int_def)
  ultimately show ?thesis using t by simp
qed

lemma window_rows_ordered:
  assumes "0 < w" "window_top_row y w = Inr t" "window_bottom_row y w = Inr b"
  shows "t \<le> b"
  using window_rows_nested[OF assms(1) order_refl assms(2,3)] assms(2,3) by auto

lemma f64_round_bounded:
  assumes "\<bar>x\<bar> \<le> of_int n" "n < 2 ^ 53"
  shows "\<exists>r. f64_round x = Finite r \<and> \<bar>r\<bar> \<le> of_int n"
proof -
  have "(0 :: rat) \<le> of_int n" using assms(1) abs_ge_zero[of x] by linarith
  then have n0: "0 \<le> n" by (simp only: of_int_0_le_iff)
  have e: "\<bar>n\<bar> < 2 ^ 53" "\<bar>- n\<bar> < 2 ^ 53" using n0 assms(2) by simp_all
  have hi: "f64_round (of_int n) = Finite (of_int n)"
    using f64_of_int_exact[OF e(1)] by (simp add: f64_of_int_def)
  have lo: "f64_round (of_int (- n)) = Finite (of_int (- n))"
    using f64_of_int_exact[OF e(2)] by (simp add: f64_of_int_def)
  have "of_int (- n) \<le> x" "x \<le> of_int n" using assms(1) by (simp_all add: abs_le_iff)
  from f64_round_between[OF lo hi this] show ?thesis by (auto simp add: abs_le_iff)
qed

lemma trunc_of_int: "trunc (of_int k) = k"
  by (simp add: trunc_def)

lemma trunc_bounded:
  assumes "\<bar>x\<bar> \<le> of_int n"
  shows "- n \<le> trunc x \<and> trunc x \<le> n"
proof -
  have "of_int (- n) \<le> x" "x \<le> of_int n" using assms by (simp_all add: abs_le_iff)
  then have "trunc (of_int (- n)) \<le> trunc x" "trunc x \<le> trunc (of_int n)"
    by (simp_all only: trunc_mono)
  then show ?thesis by (simp only: trunc_of_int)
qed


text \<open>Both conversions are defined when the predicted position is finite, of
  magnitude at most \<open>2\<^sup>2\<^sup>9\<close>, and the half-window is at most \<open>2\<^sup>2\<^sup>9\<close>.\<close>

lemma window_rows_defined:
  assumes "\<bar>r\<bar> \<le> 2 ^ 29" "0 < w" "w \<le> 2 ^ 29"
  shows "\<exists>t b. window_top_row (Finite r) w = Inr t \<and> window_bottom_row (Finite r) w = Inr b"
proof -
  have "\<bar>r + 1 / 2\<bar> \<le> of_int (2 ^ 29 + 1)" using assms(1) by simp
  from f64_round_bounded[OF this] obtain c where
    c: "f64_add (Finite r) (Finite (1 / 2)) = Finite c" "\<bar>c\<bar> \<le> of_int (2 ^ 29 + 1)"
    by (auto simp add: f64_add_def)
  have w: "f64_of_int w = Finite (of_int w)" using assms(2,3) by (intro f64_of_int_exact) simp
  have wr: "(of_int w :: rat) \<le> of_int (2 ^ 29)" "(0 :: rat) < of_int w"
    using assms(2,3) by (simp_all only: of_int_le_iff of_int_0_less_iff)
  have "\<bar>c - of_int w\<bar> \<le> of_int (2 ^ 30 + 1)" using c(2) wr by simp
  from f64_round_bounded[OF this] obtain lo where
    lo: "f64_sub (Finite c) (Finite (of_int w)) = Finite lo" "\<bar>lo\<bar> \<le> of_int (2 ^ 30 + 1)"
    by (auto simp add: f64_sub_def)
  have "\<bar>c + of_int w\<bar> \<le> of_int (2 ^ 30 + 1)" using c(2) wr by simp
  from f64_round_bounded[OF this] obtain hi where
    hi: "f64_add (Finite c) (Finite (of_int w)) = Finite hi" "\<bar>hi\<bar> \<le> of_int (2 ^ 30 + 1)"
    by (auto simp add: f64_add_def)
  have tr: "- (2 ^ 31) \<le> trunc x \<and> trunc x < 2 ^ 31" if "\<bar>x\<bar> \<le> of_int (2 ^ 30 + 1)" for x
    using trunc_bounded[OF that] by simp
  have "window_top_row (Finite r) w = Inr (trunc lo)"
    unfolding window_top_row_def c(1) w lo(1) using tr[OF lo(2)] by (simp add: to_int_def)
  moreover have "window_bottom_row (Finite r) w = Inr (trunc hi)"
    unfolding window_bottom_row_def c(1) w hi(1) using tr[OF hi(2)] by (simp add: to_int_def)
  ultimately show ?thesis by blast
qed

lemma LUT_index_top_Inr:
  "LUT_index_top height y w = Inr r \<longleftrightarrow>
     (\<exists>t. window_top_row y w = Inr t \<and> r = clamp 0 (sint (height - 1)) t)"
  by (auto simp add: LUT_index_top_def split: sum.splits)

lemma LUT_index_bottom_Inr:
  "LUT_index_bottom height y w = Inr r \<longleftrightarrow>
     (\<exists>b. window_bottom_row y w = Inr b \<and> r = clamp 0 (sint (height - 1)) b)"
  by (auto simp add: LUT_index_bottom_def split: sum.splits)

lemma to_int_Inl: "to_int x = Inl e \<Longrightarrow> e = UndefinedBehaviour"
  by (cases x) (auto simp add: to_int_def split: if_splits)

lemma LUT_index_top_Inl: "LUT_index_top height y w = Inl e \<Longrightarrow> e = UndefinedBehaviour"
  by (auto simp add: LUT_index_top_def window_top_row_def split: sum.splits dest: to_int_Inl)

lemma LUT_index_bottom_Inl: "LUT_index_bottom height y w = Inl e \<Longrightarrow> e = UndefinedBehaviour"
  by (auto simp add: LUT_index_bottom_def window_bottom_row_def split: sum.splits dest: to_int_Inl)

lemma lut_at_Inl: "lut_at lut i = Inl e \<Longrightarrow> e = UndefinedBehaviour"
  by (auto simp add: lut_at_def split: if_splits)

lemma lut_at_eval: "0 \<le> i \<Longrightarrow> nat i < length lut \<Longrightarrow> lut_at lut i = Inr (lut ! nat i)"
  by (simp add: lut_at_def)

lemma lut_at_Inr: "lut_at lut i = Inr v \<longleftrightarrow> 0 \<le> i \<and> nat i < length lut \<and> v = lut ! nat i"
  by (auto simp add: lut_at_def)

lemma clamped_rows:
  assumes "height \<noteq> 0" "uint height \<le> 2 ^ 31" "t \<le> b"
  shows "clamp 0 (sint (height - 1)) t \<le> clamp 0 (sint (height - 1)) b"
    and "0 \<le> clamp 0 (sint (height - 1)) t"
    and "clamp 0 (sint (height - 1)) b \<le> uint height - 1"
    and "bounds_checks height (clamp 0 (sint (height - 1)) t) (clamp 0 (sint (height - 1)) b)"
proof -
  have u: "sint (height - 1) = uint height - 1" using assms(1,2) by (rule sint_height_pred)
  have "uint height \<noteq> 0" using assms(1) by (simp add: uint_0_iff)
  then have pos: "0 \<le> uint height - 1" using uint_ge_0[of height] by linarith
  show le: "clamp 0 (sint (height - 1)) t \<le> clamp 0 (sint (height - 1)) b"
    using assms(3) by (rule clamp_mono)
  have bt: "0 \<le> clamp 0 (sint (height - 1)) t \<and> clamp 0 (sint (height - 1)) t \<le> uint height - 1"
    using pos clamp_bounds[of 0 "uint height - 1" t] by (simp add: u)
  have bb: "0 \<le> clamp 0 (sint (height - 1)) b \<and> clamp 0 (sint (height - 1)) b \<le> uint height - 1"
    using pos clamp_bounds[of 0 "uint height - 1" b] by (simp add: u)
  show "0 \<le> clamp 0 (sint (height - 1)) t" using bt by simp
  show "clamp 0 (sint (height - 1)) b \<le> uint height - 1" using bb by simp
  have "(word_of_int (clamp 0 (sint (height - 1)) t) :: 32 word) < height"
    using bt by (intro word_of_int_less_height) simp_all
  moreover have "(word_of_int (clamp 0 (sint (height - 1)) b) :: 32 word) < height"
    using bb by (intro word_of_int_less_height) simp_all
  ultimately show "bounds_checks height (clamp 0 (sint (height - 1)) t) (clamp 0 (sint (height - 1)) b)"
    using le bt bb by (simp add: bounds_checks_def)
qed

lemma to_int_eval:
  assumes "trunc r = t" "- (2 ^ 31) \<le> t" "t < 2 ^ 31"
  shows "to_int (Finite r) = Inr t"
  using assms by (simp add: to_int_def)

lemma window_rows_example_a:
  "window_top_row (Finite 0) 5 = Inr (- 4)" "window_bottom_row (Finite 0) 5 = Inr 5"
proof -
  have h: "f64_add (Finite 0) (Finite (1 / 2)) = Finite (1 / 2)"
    unfolding f64_add_def fp_add.simps by (rule f64_round_eval) (code_simp, simp)
  have w: "f64_of_int 5 = Finite 5" using f64_of_int_exact[of 5] by simp
  have "f64_sub (Finite (1 / 2)) (Finite 5) = Finite (- 9 / 2)"
    unfolding f64_sub_def fp_neg.simps fp_add.simps by (rule f64_round_eval) (code_simp, simp)
  moreover have "trunc (- 9 / 2) = - 4" by code_simp
  ultimately show "window_top_row (Finite 0) 5 = Inr (- 4)"
    unfolding window_top_row_def h w by (simp add: to_int_eval)
  have "f64_add (Finite (1 / 2)) (Finite 5) = Finite (11 / 2)"
    unfolding f64_add_def fp_add.simps by (rule f64_round_eval) (code_simp, simp)
  moreover have "trunc (11 / 2) = 5" by code_simp
  ultimately show "window_bottom_row (Finite 0) 5 = Inr 5"
    unfolding window_bottom_row_def h w by (simp add: to_int_eval)
qed

lemma window_rows_example_b:
  "window_top_row (Finite 1) 1 = Inr 0" "window_bottom_row (Finite 1) 1 = Inr 2"
  "window_top_row (Finite 1) 2 = Inr 0" "window_bottom_row (Finite 1) 2 = Inr 3"
proof -
  have h: "f64_add (Finite 1) (Finite (1 / 2)) = Finite (3 / 2)"
    unfolding f64_add_def fp_add.simps by (rule f64_round_eval) (code_simp, simp)
  have w1: "f64_of_int 1 = Finite 1" using f64_of_int_exact[of 1] by simp
  have w2: "f64_of_int 2 = Finite 2" using f64_of_int_exact[of 2] by simp
  have "f64_sub (Finite (3 / 2)) (Finite 1) = Finite (1 / 2)"
    unfolding f64_sub_def fp_neg.simps fp_add.simps by (rule f64_round_eval) (code_simp, simp)
  moreover have "trunc (1 / 2) = 0" by code_simp
  ultimately show "window_top_row (Finite 1) 1 = Inr 0"
    unfolding window_top_row_def h w1 by (simp add: to_int_eval)
  have "f64_add (Finite (3 / 2)) (Finite 1) = Finite (5 / 2)"
    unfolding f64_add_def fp_add.simps by (rule f64_round_eval) (code_simp, simp)
  moreover have "trunc (5 / 2) = 2" by code_simp
  ultimately show "window_bottom_row (Finite 1) 1 = Inr 2"
    unfolding window_bottom_row_def h w1 by (simp add: to_int_eval)
  have "f64_sub (Finite (3 / 2)) (Finite 2) = Finite (- 1 / 2)"
    unfolding f64_sub_def fp_neg.simps fp_add.simps by (rule f64_round_eval) (code_simp, simp)
  moreover have "trunc (- 1 / 2) = 0" by code_simp
  ultimately show "window_top_row (Finite 1) 2 = Inr 0"
    unfolding window_top_row_def h w2 by (simp add: to_int_eval)
  have "f64_add (Finite (3 / 2)) (Finite 2) = Finite (7 / 2)"
    unfolding f64_add_def fp_add.simps by (rule f64_round_eval) (code_simp, simp)
  moreover have "trunc (7 / 2) = 3" by code_simp
  ultimately show "window_bottom_row (Finite 1) 2 = Inr 3"
    unfolding window_bottom_row_def h w2 by (simp add: to_int_eval)
qed

lemma window_query_value:
  assumes "0 < w" and "kImageHeight m \<noteq> 0" and "uint (kImageHeight m) \<le> 2 ^ 31"
    and "window_top_row y w = Inr t" and "window_bottom_row y w = Inr b"
    and "unat (kImageHeight m) \<le> length (corner_row_LUT' m)"
  shows "getKeypointIteratorsInWindow m y w =
     Inr \<lparr>LUT_index_top_of = clamp 0 (uint (kImageHeight m) - 1) t,
          LUT_index_bottom_of = clamp 0 (uint (kImageHeight m) - 1) b,
          it_keypoints_begin = corner_row_LUT' m ! nat (clamp 0 (uint (kImageHeight m) - 1) t),
          it_keypoints_end = corner_row_LUT' m ! nat (clamp 0 (uint (kImageHeight m) - 1) b)\<rparr>"
proof -
  have u: "sint (kImageHeight m - 1) = uint (kImageHeight m) - 1"
    using assms(2,3) by (rule sint_height_pred)
  have tb: "t \<le> b" using assms(1,4,5) by (rule window_rows_ordered)
  note c = clamped_rows[OF assms(2,3) tb, unfolded u]
  have b0: "0 \<le> clamp 0 (uint (kImageHeight m) - 1) b" using c(1,2) by linarith
  have t1: "clamp 0 (uint (kImageHeight m) - 1) t \<le> uint (kImageHeight m) - 1" using c(1,3) by linarith
  have "uint (kImageHeight m) \<noteq> 0" using assms(2) by (simp add: uint_0_iff)
  then have pos: "0 < uint (kImageHeight m)" using uint_ge_0[of "kImageHeight m"] by linarith
  have "nat (clamp 0 (uint (kImageHeight m) - 1) t) < nat (uint (kImageHeight m))"
    using t1 pos c(2) by linarith
  then have lt: "nat (clamp 0 (uint (kImageHeight m) - 1) t) < length (corner_row_LUT' m)"
    using assms(6) by simp
  have "nat (clamp 0 (uint (kImageHeight m) - 1) b) < nat (uint (kImageHeight m))"
    using c(3) pos b0 by linarith
  then have lb: "nat (clamp 0 (uint (kImageHeight m) - 1) b) < length (corner_row_LUT' m)"
    using assms(6) by simp
  show ?thesis
    using assms(1) c(4)
    by (simp add: getKeypointIteratorsInWindow_def LUT_index_top_def LUT_index_bottom_def
        assms(4,5) u lut_at_eval[OF c(2) lt] lut_at_eval[OF b0 lb])
qed

text \<open>
  Claim C4, as amended. For a window query with \<open>window_half_side_length_px > 0\<close> and
  an image height from 1 to \<open>2\<^sup>3\<^sup>1\<close>, the row indices, when both are computed (both
  conversions to \<open>int\<close> are defined), satisfy \<open>top \<le> bottom\<close>, both lie in
  \<open>[0, image_height - 1]\<close>, the five checks that close the query hold, and the query
  does not end in a failed check.
\<close>

theorem window_rows_in_bounds:
  assumes "0 < window_half_side_length_px"
    and "kImageHeight m \<noteq> 0" and "uint (kImageHeight m) \<le> 2 ^ 31"
  shows "(LUT_index_top (kImageHeight m) y window_half_side_length_px = Inr row_top \<and>
          LUT_index_bottom (kImageHeight m) y window_half_side_length_px = Inr row_bottom \<longrightarrow>
            row_top \<le> row_bottom \<and> 0 \<le> row_top \<and> row_bottom \<le> uint (kImageHeight m) - 1 \<and>
            bounds_checks (kImageHeight m) row_top row_bottom) \<and>
         getKeypointIteratorsInWindow m y window_half_side_length_px \<noteq> Inl CheckFailed"
proof -
  have rows: "r \<le> s \<and> 0 \<le> r \<and> s \<le> uint (kImageHeight m) - 1 \<and> bounds_checks (kImageHeight m) r s"
    if "LUT_index_top (kImageHeight m) y window_half_side_length_px = Inr r"
      and "LUT_index_bottom (kImageHeight m) y window_half_side_length_px = Inr s" for r s
  proof -
    from that(1) obtain t where t: "window_top_row y window_half_side_length_px = Inr t"
      "r = clamp 0 (sint (kImageHeight m - 1)) t" by (auto simp add: LUT_index_top_Inr)
    from that(2) obtain b where b: "window_bottom_row y window_half_side_length_px = Inr b"
      "s = clamp 0 (sint (kImageHeight m - 1)) b" by (auto simp add: LUT_index_bottom_Inr)
    have tb: "t \<le> b" using assms(1) t(1) b(1) by (rule window_rows_ordered)
    from clamped_rows[OF assms(2,3) tb] show ?thesis by (simp add: t(2) b(2))
  qed
  have "getKeypointIteratorsInWindow m y window_half_side_length_px \<noteq> Inl CheckFailed"
  proof (cases "LUT_index_top (kImageHeight m) y window_half_side_length_px")
    case (Inl e)
    then have "e = UndefinedBehaviour" by (rule LUT_index_top_Inl)
    then show ?thesis using assms(1) Inl by (simp add: getKeypointIteratorsInWindow_def)
  next
    case top: (Inr r)
    show ?thesis
    proof (cases "LUT_index_bottom (kImageHeight m) y window_half_side_length_px")
      case (Inl e)
      then have "e = UndefinedBehaviour" by (rule LUT_index_bottom_Inl)
      then show ?thesis using assms(1) top Inl by (simp add: getKeypointIteratorsInWindow_def)
    next
      case (Inr s)
      from rows[OF top Inr] have "bounds_checks (kImageHeight m) r s" by simp
      then show ?thesis using assms(1) top Inr lut_at_Inl
        by (auto simp add: getKeypointIteratorsInWindow_def split: sum.splits)
    qed
  qed
  with rows show ?thesis by blast
qed

theorem window_rows_in_bounds_witness:
  "(0 :: int) < 5 \<and> (480 :: 32 word) \<noteq> 0 \<and> uint (480 :: 32 word) \<le> 2 ^ 31 \<and>
   LUT_index_top 480 (Finite 0) 5 = Inr 0 \<and> LUT_index_bottom 480 (Finite 0) 5 = Inr 5 \<and>
   bounds_checks 480 0 5 \<and>
   getKeypointIteratorsInWindow
     \<lparr>stereo_pair' = \<lparr>first_camera_id = 0, second_camera_id = 1\<rparr>,
      camera_rig' = (\<lambda>id. \<lparr>imageHeight = 480\<rparr>), kImageHeight = 480, corner_row_LUT' = []\<rparr>
     (Finite 0) 5 \<noteq> Inl CheckFailed"
proof -
  define m where "m = \<lparr>stereo_pair' = \<lparr>first_camera_id = 0, second_camera_id = 1\<rparr>,
      camera_rig' = (\<lambda>id :: nat. \<lparr>imageHeight = 480\<rparr>), kImageHeight = 480, corner_row_LUT' = []\<rparr>"
  have k: "kImageHeight m = 480" by (simp add: m_def)
  have t: "LUT_index_top (kImageHeight m) (Finite 0) 5 = Inr 0"
    by (simp add: k LUT_index_top_def window_rows_example_a clamp_def)
  have b: "LUT_index_bottom (kImageHeight m) (Finite 0) 5 = Inr 5"
    by (simp add: k LUT_index_bottom_def window_rows_example_a clamp_def)
  have "(0 :: int) < 5" "kImageHeight m \<noteq> 0" "uint (kImageHeight m) \<le> 2 ^ 31"
    by (simp_all add: k)
  from window_rows_in_bounds[OF this, of "Finite 0" 0 5] t b show ?thesis
    by (simp add: k m_def)
qed

text \<open>
  Above \<open>2\<^sup>3\<^sup>1\<close> the claim fails: \<open>kImageHeight - 1\<close> no longer fits the \<open>int\<close>
  parameter of \<open>clamp\<close>, the upper bound turns negative and so do both indices.
  And for a predicted position near the end of the range of \<open>int\<close> the bottom edge
  of the window does not convert to \<open>int\<close>: no row index is computed.
\<close>

theorem window_rows_in_bounds_counterexample:
  "(0 :: int) < 5 \<and> (1 :: 32 word) \<le> 2147483649 \<and>
   LUT_index_top 2147483649 (Finite 0) 5 = Inr (- 2147483648) \<and>
   LUT_index_bottom 2147483649 (Finite 0) 5 = Inr (- 2147483648) \<and>
   (1 :: 32 word) \<le> 480 \<and>
   LUT_index_bottom 480 (Finite 2147483647) 5 = Inl UndefinedBehaviour"
proof -
  have h: "f64_add (Finite 2147483647) (Finite (1 / 2)) = Finite (4294967295 / 2)"
    unfolding f64_add_def fp_add.simps by (rule f64_round_eval) (code_simp, simp)
  have w: "f64_of_int 5 = Finite 5" using f64_of_int_exact[of 5] by simp
  have s: "f64_add (Finite (4294967295 / 2)) (Finite 5) = Finite (4294967305 / 2)"
    unfolding f64_add_def fp_add.simps by (rule f64_round_eval) (code_simp, simp)
  have "trunc (4294967305 / 2) = 2147483652" by code_simp
  then have "window_bottom_row (Finite 2147483647) 5 = Inl UndefinedBehaviour"
    unfolding window_bottom_row_def h w s by (simp add: to_int_def)
  then show ?thesis
    by (simp add: LUT_index_top_def LUT_index_bottom_def window_rows_example_a clamp_def)
qed

text \<open>
  Claim C6, as amended. For \<open>half_height > 0\<close> and an image height from 1 to \<open>2\<^sup>3\<^sup>1\<close>,
  the query computes \<open>top = clamp(0, image_height - 1, t)\<close> and
  \<open>bottom = clamp(0, image_height - 1, b)\<close>, where \<open>t\<close> and \<open>b\<close> are
  \<open>predicted_y + 0.5 - half_height\<close> and \<open>predicted_y + 0.5 + half_height\<close>, computed in
  \<open>double\<close> and truncated to \<open>int\<close>; when the lookup table has an entry for every row
  it returns the range from \<open>lut[top]\<close> to \<open>lut[bottom]\<close>.
\<close>

theorem getKeypointIteratorsInWindow_range:
  assumes "0 < window_half_side_length_px"
    and "kImageHeight m \<noteq> 0" and "uint (kImageHeight m) \<le> 2 ^ 31"
    and "window_top_row y window_half_side_length_px = Inr t"
    and "window_bottom_row y window_half_side_length_px = Inr b"
    and "unat (kImageHeight m) \<le> length (corner_row_LUT' m)"
  shows "getKeypointIteratorsInWindow m y window_half_side_length_px =
     Inr \<lparr>LUT_index_top_of = clamp 0 (uint (kImageHeight m) - 1) t,
          LUT_index_bottom_of = clamp 0 (uint (kImageHeight m) - 1) b,
          it_keypoints_begin = corner_row_LUT' m ! nat (clamp 0 (uint (kImageHeight m) - 1) t),
          it_keypoints_end = corner_row_LUT' m ! nat (clamp 0 (uint (kImageHeight m) - 1) b)\<rparr>"
  using assms by (rule window_query_value)

theorem getKeypointIteratorsInWindow_range_witness:
  "(0 :: int) < 1 \<and> (4 :: 32 word) \<noteq> 0 \<and> uint (4 :: 32 word) \<le> 2 ^ 31 \<and>
   window_top_row (Finite 1) 1 = Inr 0 \<and> window_bottom_row (Finite 1) 1 = Inr 2 \<and>
   getKeypointIteratorsInWindow
     \<lparr>stereo_pair' = \<lparr>first_camera_id = 0, second_camera_id = 1\<rparr>,
      camera_rig' = (\<lambda>id. \<lparr>imageHeight = 4\<rparr>), kImageHeight = 4,
      corner_row_LUT' = [0, 2, 2, 5, 7]\<rparr>
     (Finite 1) 1 =
   Inr \<lparr>LUT_index_top_of = 0, LUT_index_bottom_of = 2,
        it_keypoints_begin = 0, it_keypoints_end = 2\<rparr>"
proof -
  define m where "m = \<lparr>stereo_pair' = \<lparr>first_camera_id = 0, second_camera_id = 1\<rparr>,
      camera_rig' = (\<lambda>id :: nat. \<lparr>imageHeight = 4\<rparr>), kImageHeight = 4,
      corner_row_LUT' = [0, 2, 2, 5, 7]\<rparr>"
  have "(0 :: int) < 1" "kImageHeight m \<noteq> 0" "uint (kImageHeight m) \<le> 2 ^ 31"
    "unat (kImageHeight m) \<le> length (corner_row_LUT' m)"
    by (simp_all add: m_def)
  from getKeypointIteratorsInWindow_range[OF this(1-3) window_rows_example_b(1,2) this(4)]
  show ?thesis by (simp add: m_def clamp_def window_rows_example_b)
qed

text \<open>
  The specification's formulas leave the rounding out: at \<open>predicted_y = 10.75\<close> and
  \<open>half_height = 3\<close> the code computes the rows 8 and 14, where
  \<open>predicted_y - half_height\<close> is 7.75 and \<open>predicted_y + half_height\<close> is 13.75,
  which truncate to 7 and 13.
\<close>

theorem getKeypointIteratorsInWindow_range_counterexample:
  "(0 :: int) < 3 \<and>
   LUT_index_top 100 (Finite (43 / 4)) 3 = Inr 8 \<and>
   top_spec 100 (43 / 4) 3 = 31 / 4 \<and> trunc (top_spec 100 (43 / 4) 3) = 7 \<and>
   LUT_index_bottom 100 (Finite (43 / 4)) 3 = Inr 14 \<and>
   bottom_spec 100 (43 / 4) 3 = 55 / 4 \<and> trunc (bottom_spec 100 (43 / 4) 3) = 13"
proof -
  have h: "f64_add (Finite (43 / 4)) (Finite (1 / 2)) = Finite (45 / 4)"
    unfolding f64_add_def fp_add.simps by (rule f64_round_eval) (code_simp, simp)
  have w: "f64_of_int 3 = Finite 3" using f64_of_int_exact[of 3] by simp
  have "f64_sub (Finite (45 / 4)) (Finite 3) = Finite (33 / 4)"
    unfolding f64_sub_def fp_neg.simps fp_add.simps by (rule f64_round_eval) (code_simp, simp)
  moreover have "trunc (33 / 4) = 8" by code_simp
  ultimately have t: "window_top_row (Finite (43 / 4)) 3 = Inr 8"
    unfolding window_top_row_def h w by (simp add: to_int_eval)
  have "f64_add (Finite (45 / 4)) (Finite 3) = Finite (57 / 4)"
    unfolding f64_add_def fp_add.simps by (rule f64_round_eval) (code_simp, simp)
  moreover have "trunc (57 / 4) = 14" by code_simp
  ultimately have b: "window_bottom_row (Finite (43 / 4)) 3 = Inr 14"
    unfolding window_bottom_row_def h w by (simp add: to_int_eval)
  have s: "top_spec 100 (43 / 4) 3 = 31 / 4" "bottom_spec 100 (43 / 4) 3 = 55 / 4"
    by (simp_all add: top_spec_def bottom_spec_def clamp_spec_def)
  have "trunc (31 / 4) = 7" "trunc (55 / 4) = 13" by code_simp+
  then show ?thesis
    by (simp add: LUT_index_top_def LUT_index_bottom_def t b clamp_def s)
qed

text \<open>
  Claim C5. With a monotonically non-decreasing lookup table and half-window sizes
  \<open>0 < h1 \<le> h2\<close>, whenever the query with \<open>h2\<close> returns a range at a predicted
  position, the query with \<open>h1\<close> returns one too, and it is a subrange of the
  former.
\<close>

theorem window_monotone:
  assumes "sorted (corner_row_LUT' m)"
    and "0 < h1" and "h1 \<le> h2"
    and "getKeypointIteratorsInWindow m y h2 = Inr wide"
  shows "\<exists>narrow. getKeypointIteratorsInWindow m y h1 = Inr narrow \<and>
           {it_keypoints_begin narrow ..< it_keypoints_end narrow} \<subseteq>
           {it_keypoints_begin wide ..< it_keypoints_end wide}"
proof -
  define u where "u = sint (kImageHeight m - 1)"
  define lut where "lut = corner_row_LUT' m"
  from assms(4) obtain t2 b2 where
    r2: "window_top_row y h2 = Inr t2" "window_bottom_row y h2 = Inr b2"
    and l2: "lut_at lut (clamp 0 u t2) = Inr (it_keypoints_begin wide)"
      "lut_at lut (clamp 0 u b2) = Inr (it_keypoints_end wide)"
    and ch: "bounds_checks (kImageHeight m) (clamp 0 u t2) (clamp 0 u b2)"
    by (auto simp add: getKeypointIteratorsInWindow_def LUT_index_top_def LUT_index_bottom_def
        u_def lut_def split: if_splits sum.splits)
  from window_rows_nested[OF assms(2,3) r2] obtain t1 b1 where
    r1: "window_top_row y h1 = Inr t1" "window_bottom_row y h1 = Inr b1"
    and o: "t2 \<le> t1" "t1 \<le> b1" "b1 \<le> b2" by auto
  define T2 B2 T1 B1 where "T2 = clamp 0 u t2" and "B2 = clamp 0 u b2"
    and "T1 = clamp 0 u t1" and "B1 = clamp 0 u b1"
  have c: "T2 \<le> T1" "T1 \<le> B1" "B1 \<le> B2"
    using o by (simp_all add: T2_def B2_def T1_def B1_def clamp_mono)
  have i2: "0 \<le> T2" "nat B2 < length lut" "0 \<le> B2"
    using l2 by (simp_all add: lut_at_Inr T2_def B2_def)
  have T1r: "0 \<le> T1" "nat T1 < length lut" using c i2 by linarith+
  have B1r: "0 \<le> B1" "nat B1 < length lut" using c i2 by linarith+
  have chk: "bounds_checks (kImageHeight m) T1 B1"
  proof -
    have w2: "(word_of_int B2 :: 32 word) < kImageHeight m"
      using ch by (simp add: bounds_checks_def B2_def)
    have "B2 \<le> u" by (simp add: B2_def clamp_def)
    moreover have "u < 2 ^ 31" using sint_lt[of "kImageHeight m - 1"] by (simp add: u_def)
    ultimately have "B2 < 2 ^ 32" by simp
    then have "uint (word_of_int B2 :: 32 word) = B2" using i2(3) by (simp add: uint_word_of_int)
    then have "B2 < uint (kImageHeight m)" using w2 by (simp add: word_less_def)
    then have "T1 < uint (kImageHeight m)" "B1 < uint (kImageHeight m)" using c by linarith+
    then have "(word_of_int T1 :: 32 word) < kImageHeight m" "(word_of_int B1 :: 32 word) < kImageHeight m"
      using T1r(1) B1r(1) by (simp_all add: word_of_int_less_height)
    then show ?thesis using c(2) T1r(1) B1r(1) by (simp add: bounds_checks_def)
  qed
  define narrow where "narrow = \<lparr>LUT_index_top_of = T1, LUT_index_bottom_of = B1,
    it_keypoints_begin = lut ! nat T1, it_keypoints_end = lut ! nat B1\<rparr>"
  have ret: "getKeypointIteratorsInWindow m y h1 = Inr narrow"
    using assms(2) chk T1r B1r
    by (simp add: getKeypointIteratorsInWindow_def LUT_index_top_def LUT_index_bottom_def r1
        lut_at_eval narrow_def flip: u_def lut_def T1_def B1_def)
  have s: "sorted lut" using assms(1) by (simp add: lut_def)
  have "lut ! nat T2 \<le> lut ! nat T1"
    using s c(1) i2(1) T1r by (intro sorted_nth_mono) simp_all
  moreover have "lut ! nat B1 \<le> lut ! nat B2"
    using s c(3) B1r(1) i2(2) by (intro sorted_nth_mono) simp_all
  moreover have "it_keypoints_begin wide = lut ! nat T2" "it_keypoints_end wide = lut ! nat B2"
    using l2 by (simp_all add: lut_at_Inr T2_def B2_def)
  ultimately have "{it_keypoints_begin narrow ..< it_keypoints_end narrow} \<subseteq>
      {it_keypoints_begin wide ..< it_keypoints_end wide}"
    by (auto simp add: narrow_def)
  with ret show ?thesis by blast
qed

theorem window_monotone_witness:
  "sorted [0, 2, 2, 5, 7 :: int] \<and> (0 :: int) < 1 \<and> (1 :: int) \<le> 2 \<and>
   getKeypointIteratorsInWindow
     \<lparr>stereo_pair' = \<lparr>first_camera_id = 0, second_camera_id = 1\<rparr>,
      camera_rig' = (\<lambda>id. \<lparr>imageHeight = 4\<rparr>), kImageHeight = 4,
      corner_row_LUT' = [0, 2, 2, 5, 7]\<rparr>
     (Finite 1) 2 =
   Inr \<lparr>LUT_index_top_of = 0, LUT_index_bottom_of = 3,
        it_keypoints_begin = 0, it_keypoints_end = 5\<rparr> \<and>
   (\<exists>narrow. getKeypointIteratorsInWindow
     \<lparr>stereo_pair' = \<lparr>first_camera_id = 0, second_camera_id = 1\<rparr>,
      camera_rig' = (\<lambda>id. \<lparr>imageHeight = 4\<rparr>), kImageHeight = 4,
      corner_row_LUT' = [0, 2, 2, 5, 7]\<rparr>
     (Finite 1) 1 = Inr narrow \<and>
     {it_keypoints_begin narrow ..< it_keypoints_end narrow} \<subseteq> {0 ..< 5})"
proof -
  define m where "m = \<lparr>stereo_pair' = \<lparr>first_camera_id = 0, second_camera_id = 1\<rparr>,
      camera_rig' = (\<lambda>id :: nat. \<lparr>imageHeight = 4\<rparr>), kImageHeight = 4,
      corner_row_LUT' = [0, 2, 2, 5, 7]\<rparr>"
  have f: "(0 :: int) < 2" "kImageHeight m \<noteq> 0" "uint (kImageHeight m) \<le> 2 ^ 31"
    "unat (kImageHeight m) \<le> length (corner_row_LUT' m)"
    by (simp_all add: m_def)
  have wide: "getKeypointIteratorsInWindow m (Finite 1) 2 =
      Inr \<lparr>LUT_index_top_of = 0, LUT_index_bottom_of = 3,
        it_keypoints_begin = 0, it_keypoints_end = 5\<rparr>"
    using window_query_value[OF f(1-3) window_rows_example_b(3,4) f(4)]
    by (simp add: m_def clamp_def)
  have s: "sorted (corner_row_LUT' m)" by (simp add: m_def)
  from window_monotone[OF s _ _ wide, of 1] wide show ?thesis
    by (simp add: m_def)
qed


section \<open>Recorded candidates\<close>

lemma score_in_range_iff:
  "score_in_range s \<longleftrightarrow> fp_less (Finite 0) s \<and> fp_le s (Finite 1)"
  by (cases s) (simp_all add: score_in_range_def)

lemma addCandidate_value:
  "addCandidate d it s =
     (if score_in_range s
      then Inr (d\<lparr>keypoint_match_candidates_frame1 := keypoint_match_candidates_frame1 d @ [it],
                  match_candidate_matching_scores := match_candidate_matching_scores d @ [s]\<rparr>)
      else Inl CheckFailed)"
  by (auto simp add: addCandidate_def score_in_range_iff)

lemma addCandidates_scores:
  assumes "addCandidates d cs = Inr d'"
  shows "match_candidate_matching_scores d' = match_candidate_matching_scores d @ map snd cs \<and>
         keypoint_match_candidates_frame1 d' = keypoint_match_candidates_frame1 d @ map fst cs \<and>
         list_all score_in_range (map snd cs)"
  using assms
proof (induction cs arbitrary: d)
  case Nil
  then show ?case by simp
next
  case (Cons c cs)
  obtain it s where c: "c = (it, s)" by (cases c)
  from Cons.prems obtain d1 where d1: "addCandidate d it s = Inr d1" "addCandidates d1 cs = Inr d'"
    by (auto simp add: c split: sum.splits)
  from d1(1) have s: "score_in_range s"
    and e: "d1 = d\<lparr>keypoint_match_candidates_frame1 := keypoint_match_candidates_frame1 d @ [it],
                  match_candidate_matching_scores := match_candidate_matching_scores d @ [s]\<rparr>"
    by (auto simp add: addCandidate_value split: if_splits)
  from Cons.IH[OF d1(2)] s show ?case by (simp add: c e)
qed


section \<open>Construction\<close>

text \<open>
  Claim C9 does not hold of the constructor: the stored camera rig is whatever the
  uninitialised member held, and the stored image height is read from that, so
  the constructed matcher is the same for every \<open>camera_rig\<close> argument.
\<close>

theorem StereoMatcher_ctor_ignores_camera_rig:
  "camera_rig' (StereoMatcher_ctor stereo_pair camera_rig indeterminate) = indeterminate \<and>
   kImageHeight (StereoMatcher_ctor stereo_pair camera_rig indeterminate) =
     imageHeight (indeterminate (first_camera_id stereo_pair)) \<and>
   StereoMatcher_ctor stereo_pair camera_rig indeterminate =
     StereoMatcher_ctor stereo_pair other_rig indeterminate"
  by (simp add: StereoMatcher_ctor_def)


section \<open>Exclusive assignment\<close>

lemma winner_simp [simp]: "winner (k, b, t) = b"
  by (simp add: winner_def)

lemma update_A_indices:
  assumes "distinct (map fst al)" "distinct (map winner al)"
    and "a \<notin> set (map winner al)"
  shows "distinct (map winner (AList.update j (a, s) al)) \<and>
         set (map winner (AList.update j (a, s) al)) =
           insert a (set (map winner al) -
             (case map_of al j of None \<Rightarrow> {} | Some (a', s') \<Rightarrow> {a'}))"
  using assms
proof (induction al)
  case Nil
  then show ?case by simp
next
  case (Cons p ps)
  obtain k b t where p: "p = (k, b, t)" by (cases p)
  show ?case
  proof (cases "k = j")
    case True
    then show ?thesis using Cons.prems by (auto simp add: p)
  next
    case False
    have ih: "distinct (map winner (AList.update j (a, s) ps)) \<and>
         set (map winner (AList.update j (a, s) ps)) =
           insert a (set (map winner ps) -
             (case map_of ps j of None \<Rightarrow> {} | Some (a', s') \<Rightarrow> {a'}))"
      using Cons.prems by (intro Cons.IH) simp_all
    have nb: "b \<notin> (case map_of ps j of None \<Rightarrow> {} | Some (a', s') \<Rightarrow> {a'})"
    proof (cases "map_of ps j")
      case None
      then show ?thesis by simp
    next
      case (Some v)
      obtain a' s' where v: "v = (a', s')" by (cases v)
      from Some have "(j, a', s') \<in> set ps" by (simp add: v map_of_SomeD)
      then have "a' \<in> set (map winner ps)" by force
      moreover have "b \<notin> set (map winner ps)" using Cons.prems(2) by (simp add: p)
      ultimately show ?thesis by (auto simp add: Some v)
    qed
    have ba: "b \<noteq> a" using Cons.prems(3) by (auto simp add: p)
    have bn: "b \<notin> set (map winner ps)" using Cons.prems(2) by (simp add: p)
    show ?thesis using False ih nb ba bn by (auto simp add: p)
  qed
qed

lemma install_ok:
  assumes "state_ok st (a # pending)"
  shows "state_ok (install a j s st) pending"
proof -
  define al where "al = frame1_idx_to_matches_iterator_map st"
  define inf where "inf = inferior_match_keypoint_idx_frame0 st"
  have k: "distinct (map fst al)" and v: "distinct (map winner al)"
    and d: "distinct (inf @ a # pending)"
    and x: "set (inf @ a # pending) \<inter> set (map winner al) = {}"
    using assms by (simp_all add: state_ok_def A_indices_def al_def inf_def)
  have na: "a \<notin> set (map winner al)" using x by auto
  note u = update_A_indices[OF k v na, of j s]
  have k': "distinct (map fst (AList.update j (a, s) al))" using k by (rule distinct_update)
  show ?thesis
  proof (cases "map_of al j")
    case None
    then have "install a j s st = st\<lparr>frame1_idx_to_matches_iterator_map := AList.update j (a, s) al\<rparr>"
      by (simp add: install_def al_def)
    moreover have "set (inf @ pending) \<inter> set (map winner (AList.update j (a, s) al)) = {}"
      using u d x None by auto
    ultimately show ?thesis using k' u d
      by (simp add: state_ok_def A_indices_def inf_def)
  next
    case (Some w)
    obtain a' s' where w: "w = (a', s')" by (cases w)
    from Some have "(j, a', s') \<in> set al" by (simp add: w map_of_SomeD)
    then have a': "a' \<in> set (map winner al)" by force
    have e: "install a j s st = st\<lparr>frame1_idx_to_matches_iterator_map := AList.update j (a, s) al,
        inferior_match_keypoint_idx_frame0 := inf @ [a']\<rparr>"
      using Some by (simp add: install_def al_def inf_def w)
    have s1: "set (map winner (AList.update j (a, s) al)) =
        insert a (set (map winner al) - {a'})"
      using u Some by (simp add: w)
    have x': "set inf \<inter> set (map winner al) = {}"
      "set pending \<inter> set (map winner al) = {}"
      using x by auto
    have n1: "a' \<noteq> a" using a' na by blast
    have n2: "a' \<notin> set inf" using a' x'(1) by blast
    have n3: "a' \<notin> set pending" using a' x'(2) by blast
    have d0: "distinct inf" "distinct pending" "set inf \<inter> set pending = {}"
      "a \<notin> set inf" "a \<notin> set pending"
      using d by auto
    have d': "distinct ((inf @ [a']) @ pending)" using d0 n2 n3 by auto
    have "set ((inf @ [a']) @ pending) \<inter> insert a (set (map winner al) - {a'}) = {}"
      using d0 x' n1 by auto
    then show ?thesis using k' u d' s1
      by (simp add: e state_ok_def A_indices_def)
  qed
qed

lemma push_ok:
  assumes "state_ok st (a # pending)"
  shows "state_ok (st\<lparr>inferior_match_keypoint_idx_frame0 :=
            inferior_match_keypoint_idx_frame0 st @ [a]\<rparr>) pending"
  using assms by (auto simp add: state_ok_def A_indices_def)

lemma matchKeypoint_ok:
  assumes "state_ok st (a # pending)"
  shows "state_ok (matchKeypoint attempts a st) pending"
proof -
  have "state_ok st pending" using assms by (auto simp add: state_ok_def)
  then show ?thesis using install_ok[OF assms] push_ok[OF assms]
    by (auto simp add: matchKeypoint_def split: option.splits)
qed

lemma first_pass_fold_ok:
  "state_ok st (xs @ pending) \<Longrightarrow> state_ok (fold (matchKeypoint attempts) xs st) pending"
proof (induction xs arbitrary: st)
  case Nil
  then show ?case by simp
next
  case (Cons a xs)
  then have "state_ok (matchKeypoint attempts a st) (xs @ pending)"
    by (intro matchKeypoint_ok) simp
  then show ?case using Cons.IH by simp
qed

lemma first_pass_ok: "state_ok (first_pass attempts) []"
proof -
  have "state_ok initial_state ([0 ..< length attempts] @ [])"
    by (simp add: state_ok_def initial_state_def A_indices_def)
  then show ?thesis unfolding first_pass_def by (rule first_pass_fold_ok)
qed

lemma rematch_ok:
  assumes "state_ok st (a # pending)"
  shows "state_ok (snd (rematch attempts a (n, st))) pending"
  using install_ok[OF assms] push_ok[OF assms]
  by (auto simp add: rematch_def split: option.splits)

lemma rematch_fold_ok:
  "state_ok (snd acc) (xs @ pending) \<Longrightarrow> state_ok (snd (fold (rematch attempts) xs acc)) pending"
proof (induction xs arbitrary: acc)
  case Nil
  then show ?case by simp
next
  case (Cons a xs)
  obtain n st where acc: "acc = (n, st)" by (cases acc)
  from Cons.prems have "state_ok (snd (rematch attempts a (n, st))) (xs @ pending)"
    by (intro rematch_ok) (simp add: acc)
  then show ?case using Cons.IH by (simp add: acc)
qed

lemma matchInferiorMatches_ok:
  assumes "state_ok st []"
  shows "state_ok (snd (matchInferiorMatches attempts st)) []"
proof -
  have "state_ok (st\<lparr>inferior_match_keypoint_idx_frame0 := []\<rparr>)
          (inferior_match_keypoint_idx_frame0 st @ [])"
    using assms by (simp add: state_ok_def A_indices_def)
  then show ?thesis unfolding matchInferiorMatches_def
    by (intro rematch_fold_ok) simp
qed

lemma resolve_ok:
  "state_ok st [] \<Longrightarrow> state_ok (snd (resolve k attempts st)) []"
proof (induction k arbitrary: st)
  case 0
  then show ?case by simp
next
  case (Suc k)
  obtain n st' where r: "matchInferiorMatches attempts st = (n, st')"
    by (cases "matchInferiorMatches attempts st")
  have ok: "state_ok st' []" using matchInferiorMatches_ok[OF Suc.prems, of attempts] by (simp add: r)
  obtain ns st'' where r': "resolve k attempts st' = (ns, st'')"
    by (cases "resolve k attempts st'")
  have "state_ok st'' []" using Suc.IH[OF ok] by (simp add: r')
  then show ?case using ok by (simp add: r r')
qed

lemma matches_of_indices:
  "distinct (map idx_frame0 (matches_of st)) = distinct (A_indices st)"
  "distinct (map idx_frame1 (matches_of st)) =
     distinct (map fst (frame1_idx_to_matches_iterator_map st))"
proof -
  define ms where "ms = map (\<lambda>(j, a, s). \<lparr>idx_frame0 = a, idx_frame1 = j, score = s\<rparr>)
          (frame1_idx_to_matches_iterator_map st)"
  have a: "map idx_frame0 ms = A_indices st"
    by (simp add: ms_def A_indices_def comp_def case_prod_beta winner_def)
  have b: "map idx_frame1 ms = map fst (frame1_idx_to_matches_iterator_map st)"
    by (simp add: ms_def comp_def case_prod_beta)
  have "distinct (map idx_frame0 (sort_key idx_frame0 ms)) = distinct (map idx_frame0 ms)"
    by (simp add: distinct_map)
  then show "distinct (map idx_frame0 (matches_of st)) = distinct (A_indices st)"
    by (simp add: matches_of_def a flip: ms_def)
  have "distinct (map idx_frame1 (sort_key idx_frame0 ms)) = distinct (map idx_frame1 ms)"
    by (simp add: distinct_map)
  then show "distinct (map idx_frame1 (matches_of st)) =
     distinct (map fst (frame1_idx_to_matches_iterator_map st))"
    by (simp add: matches_of_def b flip: ms_def)
qed


text \<open>
  Claim C1. The matches returned by one call of \<open>match\<close> name no frame-A index and
  no frame-B index twice.
\<close>

theorem match_exclusive:
  "distinct (map idx_frame0 (match attempts)) \<and> distinct (map idx_frame1 (match attempts))"
proof -
  have "state_ok (snd (resolve kMaxNumInferiorIterations attempts (first_pass attempts))) []"
    using first_pass_ok by (rule resolve_ok)
  then show ?thesis by (simp add: match_def matches_of_indices state_ok_def)
qed


section \<open>The scores of the returned matches\<close>

text \<open>
  Every score of a returned match is the score of a candidate of the first pass;
  when all of these lie in \<open>(0, 1]\<close>, as the recorded ones do, so does every
  returned score.
\<close>

lemma best_candidate_mem: "best_candidate cs = Some c \<Longrightarrow> c \<in> set cs"
proof (induction cs arbitrary: c)
  case Nil
  then show ?case by simp
next
  case (Cons p cs)
  obtain j s where p: "p = (j, s)" by (cases p)
  show ?case
  proof (cases "best_candidate cs")
    case None
    then show ?thesis using Cons.prems by (simp add: p)
  next
    case (Some q)
    then have "q \<in> set cs" by (rule Cons.IH)
    then show ?thesis using Cons.prems Some by (auto simp add: p split: if_splits prod.splits)
  qed
qed

lemma set_update_subset: "set (AList.update k v al) \<subseteq> insert (k, v) (set al)"
  by (induction al) auto

lemma install_scores:
  assumes "scores_known attempts st" "s \<in> candidate_scores attempts"
  shows "scores_known attempts (install a j s st)"
proof -
  have "set (AList.update j (a, s) (frame1_idx_to_matches_iterator_map st)) \<subseteq>
      insert (j, a, s) (set (frame1_idx_to_matches_iterator_map st))"
    by (rule set_update_subset)
  then have "(snd \<circ> snd) ` set (AList.update j (a, s) (frame1_idx_to_matches_iterator_map st)) \<subseteq>
      insert s ((snd \<circ> snd) ` set (frame1_idx_to_matches_iterator_map st))"
    by force
  then show ?thesis using assms
    by (auto simp add: scores_known_def install_def split: option.splits)
qed

lemma matchKeypoint_scores:
  assumes "scores_known attempts st" "a < length attempts"
  shows "scores_known attempts (matchKeypoint attempts a st)"
proof (cases "best_candidate (eligible (attempts ! a))")
  case None
  then show ?thesis using assms(1) by (simp add: matchKeypoint_def)
next
  case (Some c)
  obtain j s where c: "c = (j, s)" by (cases c)
  have "(j, s) \<in> set (eligible (attempts ! a))" using Some by (simp add: c best_candidate_mem)
  moreover have "attempts ! a \<in> set attempts" using assms(2) by simp
  ultimately have "s \<in> candidate_scores attempts" by (force simp add: candidate_scores_def)
  then have "scores_known attempts (install a j s st)" using assms(1) by (intro install_scores)
  then show ?thesis using assms(1) Some by (simp add: matchKeypoint_def c scores_known_def)
qed

lemma first_pass_fold_scores:
  "scores_known attempts st \<Longrightarrow> \<forall>a \<in> set xs. a < length attempts \<Longrightarrow>
   scores_known attempts (fold (matchKeypoint attempts) xs st)"
  by (induction xs arbitrary: st) (simp_all add: matchKeypoint_scores)

lemma rematch_scores:
  assumes "scores_known attempts st"
  shows "scores_known attempts (snd (rematch attempts a (n, st)))"
proof (cases "best_candidate
                (filter (\<lambda>(j, s). kMatchingThresholdBitsRatioStrict \<le> s \<and> weaker_held st j s)
                   (attempted attempts a))")
  case None
  then show ?thesis using assms by (simp add: rematch_def scores_known_def)
next
  case (Some c)
  obtain j s where c: "c = (j, s)" by (cases c)
  from best_candidate_mem[OF Some] have m: "(j, s) \<in> set (attempted attempts a)" by (simp add: c)
  then have "a < length attempts" "(j, s) \<in> set (tried (attempts ! a))"
    by (auto simp add: attempted_def split: if_splits)
  moreover from this have "attempts ! a \<in> set attempts" by simp
  ultimately have "s \<in> candidate_scores attempts" by (force simp add: candidate_scores_def)
  then have "scores_known attempts (install a j s st)" using assms by (intro install_scores)
  then show ?thesis using Some by (simp add: rematch_def c)
qed

lemma rematch_fold_scores:
  "scores_known attempts (snd acc) \<Longrightarrow>
   scores_known attempts (snd (fold (rematch attempts) xs acc))"
proof (induction xs arbitrary: acc)
  case Nil
  then show ?case by simp
next
  case (Cons a xs)
  obtain n st where acc: "acc = (n, st)" by (cases acc)
  from Cons.prems have "scores_known attempts (snd (rematch attempts a (n, st)))"
    by (intro rematch_scores) (simp add: acc)
  then show ?case using Cons.IH by (simp add: acc)
qed

lemma resolve_scores:
  "scores_known attempts st \<Longrightarrow> scores_known attempts (snd (resolve k attempts st))"
proof (induction k arbitrary: st)
  case 0
  then show ?case by simp
next
  case (Suc k)
  obtain n st' where r: "matchInferiorMatches attempts st = (n, st')"
    by (cases "matchInferiorMatches attempts st")
  have "scores_known attempts (st\<lparr>inferior_match_keypoint_idx_frame0 := []\<rparr>)"
    using Suc.prems by (simp add: scores_known_def)
  then have "scores_known attempts (snd (matchInferiorMatches attempts st))"
    unfolding matchInferiorMatches_def by (intro rematch_fold_scores) simp
  then have ok: "scores_known attempts st'" by (simp add: r)
  obtain ns st'' where r': "resolve k attempts st' = (ns, st'')"
    by (cases "resolve k attempts st'")
  have "scores_known attempts st''" using Suc.IH[OF ok] by (simp add: r')
  then show ?case using ok by (simp add: r r')
qed

lemma match_scores_recorded:
  "score ` set (match attempts) \<subseteq> candidate_scores attempts"
proof -
  have "scores_known attempts initial_state" by (simp add: scores_known_def initial_state_def)
  then have "scores_known attempts (first_pass attempts)"
    unfolding first_pass_def by (intro first_pass_fold_scores) simp_all
  then have "scores_known attempts
      (snd (resolve kMaxNumInferiorIterations attempts (first_pass attempts)))"
    by (rule resolve_scores)
  then show ?thesis
    by (force simp add: match_def matches_of_def scores_known_def)
qed

lemma score_value_range:
  assumes "score_in_range s"
  shows "0 < score_value s \<and> score_value s \<le> 1"
  using assms by (cases s) (simp_all add: score_in_range_def score_value_def)

lemma record_attempt_scores:
  assumes "record_attempt qs = Inr a" and "s \<in> snd ` (set (tried a) \<union> set (eligible a))"
  shows "0 < s \<and> s \<le> 1"
proof -
  define cs where "cs = map (\<lambda>q. (cand_iterator q, cand_score q)) qs"
  from assms(1) obtain d where d: "addCandidates MatchData_default cs = Inr d"
    and a: "a = (let recorded = zip qs (map score_value (match_candidate_matching_scores d))
          in \<lparr>tried = map (\<lambda>(q, s). (cand_idx_frame1 q, s)) recorded,
              eligible = map (\<lambda>(q, s). (cand_idx_frame1 q, s))
                           (filter (\<lambda>(q, s). cand_passed q) recorded)\<rparr>)"
    by (auto simp add: record_attempt_def cs_def Let_def split: sum.splits)
  define recorded where
    "recorded = zip qs (map score_value (match_candidate_matching_scores d))"
  have t: "tried a = map (\<lambda>(q, s). (cand_idx_frame1 q, s)) recorded"
    and e: "eligible a = map (\<lambda>(q, s). (cand_idx_frame1 q, s))
                           (filter (\<lambda>(q, s). cand_passed q) recorded)"
    by (simp_all add: a recorded_def Let_def)
  from addCandidates_scores[OF d]
  have r: "list_all score_in_range (match_candidate_matching_scores d)"
    by (simp add: MatchData_default_def)
  from assms(2) obtain q where "(q, s) \<in> set recorded"
    by (auto simp add: t e)
  then have "s \<in> set (map score_value (match_candidate_matching_scores d))"
    unfolding recorded_def by (rule set_zip_rightD)
  then obtain x where "x \<in> set (match_candidate_matching_scores d)" "s = score_value x"
    by auto
  with r show ?thesis by (simp add: list_all_iff score_value_range)
qed

lemma record_attempts_scores:
  assumes "record_attempts qss = Inr attempts" and "s \<in> candidate_scores attempts"
  shows "0 < s \<and> s \<le> 1"
  using assms
proof (induction qss arbitrary: attempts)
  case Nil
  then show ?case by (simp add: candidate_scores_def)
next
  case (Cons qs qss)
  from Cons.prems(1) obtain a as where a: "record_attempt qs = Inr a"
    and as: "record_attempts qss = Inr as" and e: "attempts = a # as"
    by (auto split: sum.splits)
  from Cons.prems(2) have "s \<in> snd ` (set (tried a) \<union> set (eligible a)) \<or>
      s \<in> candidate_scores as"
    by (auto simp add: e candidate_scores_def)
  then show ?case
  proof
    assume "s \<in> snd ` (set (tried a) \<union> set (eligible a))"
    with a show ?thesis by (rule record_attempt_scores)
  next
    assume "s \<in> candidate_scores as"
    with as show ?thesis by (rule Cons.IH)
  qed
qed

lemma match_recorded_scores:
  assumes "match_recorded qss = Inr ms" and "m \<in> set ms"
  shows "0 < score m \<and> score m \<le> 1"
proof -
  from assms(1) obtain attempts where r: "record_attempts qss = Inr attempts"
    and ms: "ms = match attempts"
    by (auto simp add: match_recorded_def split: sum.splits)
  from assms(2) have "score m \<in> candidate_scores attempts"
    using match_scores_recorded[of attempts] by (auto simp add: ms)
  with r show ?thesis by (rule record_attempts_scores)
qed

text \<open>
  Claim C7. Every candidate that \<open>addCandidate\<close> records into a \<open>MatchData\<close> has a
  score \<open>r\<close> with \<open>0 < r \<le> 1\<close>, and for a score in that interval neither check
  of \<open>addCandidate\<close> fires: the candidate and its score are appended. Hence every
  match that \<open>match\<close> returns, from candidates recorded by \<open>addCandidate\<close>, has a
  score \<open>r\<close> with \<open>0 < r \<le> 1\<close>.
\<close>

theorem addCandidate_score_range:
  "(addCandidates MatchData_default cs = Inr d \<longrightarrow>
      match_candidate_matching_scores d = map snd cs \<and>
      list_all score_in_range (match_candidate_matching_scores d)) \<and>
   (score_in_range s \<longrightarrow>
      addCandidate d0 it s =
        Inr (d0\<lparr>keypoint_match_candidates_frame1 := keypoint_match_candidates_frame1 d0 @ [it],
                 match_candidate_matching_scores := match_candidate_matching_scores d0 @ [s]\<rparr>)) \<and>
   (score_in_range s \<longleftrightarrow> (\<exists>r. s = Finite r \<and> 0 < r \<and> r \<le> 1)) \<and>
   (match_recorded qss = Inr ms \<longrightarrow> (\<forall>m \<in> set ms. 0 < score m \<and> score m \<le> 1))"
proof -
  have a: "score_in_range s \<longleftrightarrow> (\<exists>r. s = Finite r \<and> 0 < r \<and> r \<le> 1)"
    by (cases s) (simp_all add: score_in_range_def)
  have b: "addCandidates MatchData_default cs = Inr d \<longrightarrow>
      match_candidate_matching_scores d = map snd cs \<and>
      list_all score_in_range (match_candidate_matching_scores d)"
    using addCandidates_scores[of MatchData_default cs d] by (auto simp add: MatchData_default_def)
  have c: "score_in_range s \<longrightarrow>
      addCandidate d0 it s =
        Inr (d0\<lparr>keypoint_match_candidates_frame1 := keypoint_match_candidates_frame1 d0 @ [it],
                 match_candidate_matching_scores := match_candidate_matching_scores d0 @ [s]\<rparr>)"
    by (simp add: addCandidate_value)
  have e: "match_recorded qss = Inr ms \<longrightarrow> (\<forall>m \<in> set ms. 0 < score m \<and> score m \<le> 1)"
    using match_recorded_scores[of qss ms] by blast
  from b c a e show ?thesis by (intro conjI)
qed

lemma example_match_recorded:
  "match_recorded
     [[\<lparr>cand_iterator = 4, cand_idx_frame1 = 2, cand_score = Finite (3 / 4), cand_passed = False\<rparr>,
       \<lparr>cand_iterator = 7, cand_idx_frame1 = 5, cand_score = Finite 1, cand_passed = True\<rparr>]] =
     Inr [\<lparr>idx_frame0 = 0, idx_frame1 = 5, score = 1\<rparr>]"
proof -
  have r: "record_attempts
     [[\<lparr>cand_iterator = 4, cand_idx_frame1 = 2, cand_score = Finite (3 / 4), cand_passed = False\<rparr>,
       \<lparr>cand_iterator = 7, cand_idx_frame1 = 5, cand_score = Finite 1, cand_passed = True\<rparr>]] =
     Inr [\<lparr>tried = [(2, 3 / 4), (5, 1)], eligible = [(5, 1)]\<rparr>]"
    by (simp add: record_attempt_def addCandidate_def MatchData_default_def score_value_def)
  have f: "first_pass [\<lparr>tried = [(2, 3 / 4), (5, 1)], eligible = [(5, 1)]\<rparr>] =
      \<lparr>frame1_idx_to_matches_iterator_map = [(5, 0, 1)],
        inferior_match_keypoint_idx_frame0 = []\<rparr>"
    by (simp add: first_pass_def initial_state_def matchKeypoint_def weaker_held_def install_def)
  have "match [\<lparr>tried = [(2, 3 / 4), (5, 1)], eligible = [(5, 1)]\<rparr>] =
      [\<lparr>idx_frame0 = 0, idx_frame1 = 5, score = 1\<rparr>]"
    unfolding match_def f
    by (simp add: kMaxNumInferiorIterations_def numeral_3_eq_3 matchInferiorMatches_def
        matches_of_def)
  then show ?thesis unfolding match_recorded_def r by simp
qed

theorem addCandidate_score_range_witness:
  "addCandidates MatchData_default [(4, Finite (3 / 4)), (7, Finite 1)] =
     Inr \<lparr>keypoint_match_candidates_frame1 = [4, 7],
          match_candidate_matching_scores = [Finite (3 / 4), Finite 1]\<rparr> \<and>
   list_all score_in_range [Finite (3 / 4), Finite 1] \<and>
   score_in_range (Finite (3 / 4)) \<and>
   addCandidate MatchData_default 4 (Finite (3 / 4)) =
     Inr \<lparr>keypoint_match_candidates_frame1 = [4],
          match_candidate_matching_scores = [Finite (3 / 4)]\<rparr> \<and>
   addCandidate MatchData_default 4 (Finite 0) = Inl CheckFailed \<and>
   match_recorded
     [[\<lparr>cand_iterator = 4, cand_idx_frame1 = 2, cand_score = Finite (3 / 4), cand_passed = False\<rparr>,
       \<lparr>cand_iterator = 7, cand_idx_frame1 = 5, cand_score = Finite 1, cand_passed = True\<rparr>]] =
     Inr [\<lparr>idx_frame0 = 0, idx_frame1 = 5, score = 1\<rparr>] \<and>
   0 < score \<lparr>idx_frame0 = 0, idx_frame1 = 5, score = 1\<rparr> \<and>
   score \<lparr>idx_frame0 = 0, idx_frame1 = 5, score = 1\<rparr> \<le> 1"
proof -
  have a: "addCandidates MatchData_default [(4, Finite (3 / 4)), (7, Finite 1)] =
     Inr \<lparr>keypoint_match_candidates_frame1 = [4, 7],
          match_candidate_matching_scores = [Finite (3 / 4), Finite 1]\<rparr>"
    by (simp add: addCandidate_def MatchData_default_def)
  have b: "score_in_range (Finite (3 / 4))" by (simp add: score_in_range_def)
  have c: "addCandidate MatchData_default 4 (Finite 0) = Inl CheckFailed"
    by (simp add: addCandidate_def)
  note e = example_match_recorded
  from addCandidate_score_range[of "[(4, Finite (3 / 4)), (7, Finite 1)]"
      "\<lparr>keypoint_match_candidates_frame1 = [4, 7],
        match_candidate_matching_scores = [Finite (3 / 4), Finite 1]\<rparr>"
      "Finite (3 / 4)" MatchData_default 4
      "[[\<lparr>cand_iterator = 4, cand_idx_frame1 = 2, cand_score = Finite (3 / 4), cand_passed = False\<rparr>,
       \<lparr>cand_iterator = 7, cand_idx_frame1 = 5, cand_score = Finite 1, cand_passed = True\<rparr>]]"
      "[\<lparr>idx_frame0 = 0, idx_frame1 = 5, score = 1\<rparr>]"] a b c e
  show ?thesis by (simp add: MatchData_default_def)
qed


section \<open>The rounds of the resolver\<close>

lemma resolve_trace:
  "length (fst (resolve k attempts st)) \<le> k \<and> 0 \<notin> set (butlast (fst (resolve k attempts st)))"
proof (induction k arbitrary: st)
  case 0
  then show ?case by simp
next
  case (Suc k)
  obtain n st' where r: "matchInferiorMatches attempts st = (n, st')"
    by (cases "matchInferiorMatches attempts st")
  obtain ns st'' where r': "resolve k attempts st' = (ns, st'')"
    by (cases "resolve k attempts st'")
  from Suc.IH[of st'] have "length ns \<le> k" "0 \<notin> set (butlast ns)" by (simp_all add: r')
  then show ?case by (simp add: r r')
qed


text \<open>
  Claim C8. In one call of \<open>match\<close> the resolver returns after at most 3 rounds,
  and only its last round can be one without a new assignment: whenever a round
  installs nothing, the resolver ends with that round, whatever number of rounds
  is left.
\<close>

theorem resolver_rounds:
  "(\<exists>ns st'. resolve kMaxNumInferiorIterations attempts (first_pass attempts) = (ns, st') \<and>
      length ns \<le> 3 \<and> 0 \<notin> set (butlast ns)) \<and>
   (fst (matchInferiorMatches attempts st) = 0 \<longrightarrow>
      resolve (Suc k) attempts st = ([0], snd (matchInferiorMatches attempts st)))"
proof -
  obtain ns st' where r: "resolve kMaxNumInferiorIterations attempts (first_pass attempts) = (ns, st')"
    by (cases "resolve kMaxNumInferiorIterations attempts (first_pass attempts)")
  have "length ns \<le> 3" "0 \<notin> set (butlast ns)"
    using resolve_trace[of kMaxNumInferiorIterations attempts "first_pass attempts", unfolded r]
    by (simp_all add: kMaxNumInferiorIterations_def)
  with r have a: "\<exists>ns st'. resolve kMaxNumInferiorIterations attempts (first_pass attempts) = (ns, st') \<and>
      length ns \<le> 3 \<and> 0 \<notin> set (butlast ns)" by blast
  have b: "fst (matchInferiorMatches attempts st) = 0 \<longrightarrow>
      resolve (Suc k) attempts st = ([0], snd (matchInferiorMatches attempts st))"
    by (cases "matchInferiorMatches attempts st") simp
  from a b show ?thesis ..
qed


lemma strict_threshold_value: "kMatchingThresholdBitsRatioStrict = 14260634 / 16777216"
  unfolding kMatchingThresholdBitsRatioStrict_def by code_simp

lemma example_first_pass:
  "first_pass
     [\<lparr>tried = [(0, 9 / 10), (1, 22 / 25)], eligible = [(0, 9 / 10)]\<rparr>,
      \<lparr>tried = [(0, 19 / 20), (2, 87 / 100)], eligible = [(0, 19 / 20)]\<rparr>,
      \<lparr>tried = [(1, 43 / 50)], eligible = [(1, 43 / 50)]\<rparr>] =
   \<lparr>frame1_idx_to_matches_iterator_map = [(0, 1, 19 / 20), (1, 2, 43 / 50)],
    inferior_match_keypoint_idx_frame0 = [0]\<rparr>"
  by (simp add: first_pass_def initial_state_def matchKeypoint_def weaker_held_def install_def
      upt_rec)

lemma example_round_1:
  "matchInferiorMatches
     [\<lparr>tried = [(0, 9 / 10), (1, 22 / 25)], eligible = [(0, 9 / 10)]\<rparr>,
      \<lparr>tried = [(0, 19 / 20), (2, 87 / 100)], eligible = [(0, 19 / 20)]\<rparr>,
      \<lparr>tried = [(1, 43 / 50)], eligible = [(1, 43 / 50)]\<rparr>]
     \<lparr>frame1_idx_to_matches_iterator_map = [(0, 1, 19 / 20), (1, 2, 43 / 50)],
      inferior_match_keypoint_idx_frame0 = [0]\<rparr> =
   (1, \<lparr>frame1_idx_to_matches_iterator_map = [(0, 1, 19 / 20), (1, 0, 22 / 25)],
        inferior_match_keypoint_idx_frame0 = [2]\<rparr>)"
  by (simp add: matchInferiorMatches_def rematch_def attempted_def weaker_held_def install_def
      strict_threshold_value)

lemma example_round_2:
  "matchInferiorMatches
     [\<lparr>tried = [(0, 9 / 10), (1, 22 / 25)], eligible = [(0, 9 / 10)]\<rparr>,
      \<lparr>tried = [(0, 19 / 20), (2, 87 / 100)], eligible = [(0, 19 / 20)]\<rparr>,
      \<lparr>tried = [(1, 43 / 50)], eligible = [(1, 43 / 50)]\<rparr>]
     \<lparr>frame1_idx_to_matches_iterator_map = [(0, 1, 19 / 20), (1, 0, 22 / 25)],
      inferior_match_keypoint_idx_frame0 = [2]\<rparr> =
   (0, \<lparr>frame1_idx_to_matches_iterator_map = [(0, 1, 19 / 20), (1, 0, 22 / 25)],
        inferior_match_keypoint_idx_frame0 = [2]\<rparr>)"
  by (simp add: matchInferiorMatches_def rematch_def attempted_def weaker_held_def install_def
      strict_threshold_value)


theorem resolver_rounds_witness:
  "resolve kMaxNumInferiorIterations
     [\<lparr>tried = [(0, 9 / 10), (1, 22 / 25)], eligible = [(0, 9 / 10)]\<rparr>,
      \<lparr>tried = [(0, 19 / 20), (2, 87 / 100)], eligible = [(0, 19 / 20)]\<rparr>,
      \<lparr>tried = [(1, 43 / 50)], eligible = [(1, 43 / 50)]\<rparr>]
     (first_pass
       [\<lparr>tried = [(0, 9 / 10), (1, 22 / 25)], eligible = [(0, 9 / 10)]\<rparr>,
        \<lparr>tried = [(0, 19 / 20), (2, 87 / 100)], eligible = [(0, 19 / 20)]\<rparr>,
        \<lparr>tried = [(1, 43 / 50)], eligible = [(1, 43 / 50)]\<rparr>]) =
     ([1, 0], \<lparr>frame1_idx_to_matches_iterator_map = [(0, 1, 19 / 20), (1, 0, 22 / 25)],
               inferior_match_keypoint_idx_frame0 = [2]\<rparr>) \<and>
   fst (matchInferiorMatches
     [\<lparr>tried = [(0, 9 / 10), (1, 22 / 25)], eligible = [(0, 9 / 10)]\<rparr>,
      \<lparr>tried = [(0, 19 / 20), (2, 87 / 100)], eligible = [(0, 19 / 20)]\<rparr>,
      \<lparr>tried = [(1, 43 / 50)], eligible = [(1, 43 / 50)]\<rparr>]
     \<lparr>frame1_idx_to_matches_iterator_map = [(0, 1, 19 / 20), (1, 0, 22 / 25)],
      inferior_match_keypoint_idx_frame0 = [2]\<rparr>) = 0 \<and>
   resolve (Suc 1)
     [\<lparr>tried = [(0, 9 / 10), (1, 22 / 25)], eligible = [(0, 9 / 10)]\<rparr>,
      \<lparr>tried = [(0, 19 / 20), (2, 87 / 100)], eligible = [(0, 19 / 20)]\<rparr>,
      \<lparr>tried = [(1, 43 / 50)], eligible = [(1, 43 / 50)]\<rparr>]
     \<lparr>frame1_idx_to_matches_iterator_map = [(0, 1, 19 / 20), (1, 0, 22 / 25)],
      inferior_match_keypoint_idx_frame0 = [2]\<rparr> =
     ([0], \<lparr>frame1_idx_to_matches_iterator_map = [(0, 1, 19 / 20), (1, 0, 22 / 25)],
            inferior_match_keypoint_idx_frame0 = [2]\<rparr>)"
proof -
  define ex :: "attempt list" where "ex =
     [\<lparr>tried = [(0, 9 / 10), (1, 22 / 25)], eligible = [(0, 9 / 10)]\<rparr>,
      \<lparr>tried = [(0, 19 / 20), (2, 87 / 100)], eligible = [(0, 19 / 20)]\<rparr>,
      \<lparr>tried = [(1, 43 / 50)], eligible = [(1, 43 / 50)]\<rparr>]"
  define st0 where "st0 = \<lparr>frame1_idx_to_matches_iterator_map = [(0, 1, 19 / 20), (1, 2 :: nat, 43 / 50 :: rat)],
      inferior_match_keypoint_idx_frame0 = [0]\<rparr>"
  define st1 where "st1 = \<lparr>frame1_idx_to_matches_iterator_map = [(0, 1, 19 / 20), (1, 0 :: nat, 22 / 25 :: rat)],
      inferior_match_keypoint_idx_frame0 = [2]\<rparr>"
  have p: "first_pass ex = st0" unfolding ex_def st0_def by (rule example_first_pass)
  have r1: "matchInferiorMatches ex st0 = (1, st1)"
    unfolding ex_def st0_def st1_def by (rule example_round_1)
  have r2: "matchInferiorMatches ex st1 = (0, st1)"
    unfolding ex_def st1_def by (rule example_round_2)
  have "resolve (Suc (Suc (Suc 0))) ex st0 = ([1, 0], st1)" by (simp add: r1 r2)
  then have tr: "resolve kMaxNumInferiorIterations ex (first_pass ex) = ([1, 0], st1)"
    by (simp add: kMaxNumInferiorIterations_def p numeral_3_eq_3)
  have z: "fst (matchInferiorMatches ex st1) = 0" by (simp add: r2)
  from resolver_rounds[of ex st1 1] have "resolve (Suc 1) ex st1 = ([0], st1)"
    using z by (simp add: r2)
  with tr z show ?thesis unfolding ex_def st0_def st1_def by (intro conjI)
qed

end
